theory Spec2Isabelle
  imports Complex_Main "HOL-Library.AList" "HOL-Library.Sublist"
begin

section \<open>JavaScript values used by the seating model\<close>

text \<open>
  The program is a single TypeScript module, \<^verbatim>\<open>src/App.tsx\<close>. Its state is four React
  state cells (guests, tables, assignments, pool) plus the seat selection. Every handler is
  modelled as a function from the state before the handler to the state of the render that
  follows it. A call \<^verbatim>\<open>setX(updater)\<close> queues the updater: as React documents it, the
  queued updaters run in program order during the next render, after the handler has
  returned. Values a handler closes over (\<^verbatim>\<open>tables\<close>, \<^verbatim>\<open>guestMap\<close>,
  \<^verbatim>\<open>selectedSeatKeys\<close>) are read from the state before the handler, and a local array that
  only a queued updater fills is still empty where the body of the handler reads it. The
  reconciliation effect runs after that render. The context menu and the panel flag are not
  part of the seating model and are left out.

  Numbers: a JavaScript number is a double. The model keeps the three special values apart
  and takes a finite number as a rational; \<^verbatim>\<open>Math.floor\<close>, \<^verbatim>\<open>Math.max\<close>,
  \<^verbatim>\<open>Math.min\<close>, \<^verbatim>\<open><\<close> and \<^verbatim>\<open>===\<close> are exact on doubles, so they are the
  rational operations. Loop counters start at an integer and step by one; they are naturals,
  rendered in decimal as the template literal of \<^verbatim>\<open>seatKey\<close> renders every integer below
  \<open>2\<^sup>5\<^sup>3\<close>.
\<close>

datatype jsnum = Fin rat | PosInf | NegInf | NaN

fun js_less :: "jsnum \<Rightarrow> jsnum \<Rightarrow> bool" where
  "js_less NaN _ = False"
| "js_less _ NaN = False"
| "js_less (Fin a) (Fin b) = (a < b)"
| "js_less (Fin _) PosInf = True"
| "js_less NegInf (Fin _) = True"
| "js_less NegInf PosInf = True"
| "js_less _ _ = False"

fun js_floor :: "jsnum \<Rightarrow> jsnum" where
  "js_floor (Fin a) = Fin (of_int \<lfloor>a\<rfloor>)"
| "js_floor n = n"

fun js_max :: "jsnum \<Rightarrow> jsnum \<Rightarrow> jsnum" where
  "js_max NaN _ = NaN"
| "js_max _ NaN = NaN"
| "js_max a b = (if js_less a b then b else a)"

fun js_min :: "jsnum \<Rightarrow> jsnum \<Rightarrow> jsnum" where
  "js_min NaN _ = NaN"
| "js_min _ NaN = NaN"
| "js_min a b = (if js_less b a then b else a)"

fun isNaN :: "jsnum \<Rightarrow> bool" where
  "isNaN NaN = True"
| "isNaN _ = False"

fun isFinite :: "jsnum \<Rightarrow> bool" where
  "isFinite (Fin _) = True"
| "isFinite _ = False"

text \<open>The natural number a loop counter starts from, when the number is one.\<close>

fun js_index :: "jsnum \<Rightarrow> nat option" where
  "js_index (Fin a) = (if a = of_int \<lfloor>a\<rfloor> \<and> 0 \<le> a then Some (nat \<lfloor>a\<rfloor>) else None)"
| "js_index _ = None"

text \<open>
  \<^verbatim>\<open>for (let i = i0; i < bound; i += 1) body(i)\<close> over a state \<open>s\<close>. The bound is a
  number of the program, so the loop need not end: \<open>None\<close> is "does not return".
\<close>

partial_function (option) for_loop :: "nat \<Rightarrow> jsnum \<Rightarrow> (nat \<Rightarrow> 'a \<Rightarrow> 'a) \<Rightarrow> 'a \<Rightarrow> 'a option" where
  "for_loop i bound body s =
     (if js_less (Fin (of_nat i)) bound then for_loop (Suc i) bound body (body i s) else Some s)"

declare for_loop.simps [code]

subsection \<open>Strings and the seat key\<close>

definition digit :: "nat \<Rightarrow> char" where
  "digit n = ''0123456789'' ! n"

function decimal :: "nat \<Rightarrow> string" where
  "decimal n = (if n < 10 then [digit n] else decimal (n div 10) @ [digit (n mod 10)])"
  by pat_completeness auto
termination
  by (relation "measure id") auto

declare decimal.simps [simp del]

text \<open>\<^verbatim>\<open>const seatKey = (tableId, seatIndex) => `${tableId}:${seatIndex}`\<close>\<close>

definition seatKey :: "string \<Rightarrow> nat \<Rightarrow> string" where
  "seatKey tableId seatIndex = tableId @ '':'' @ decimal seatIndex"

text \<open>\<^verbatim>\<open>key.startsWith(`${tableId}:`)\<close>\<close>

definition startsWithTable :: "string \<Rightarrow> string \<Rightarrow> bool" where
  "startsWithTable key tableId = prefix (tableId @ '':'') key"

section \<open>The seating model\<close>

text \<open>
  \<^verbatim>\<open>type Guest = { id: string; name: string; details?: string }\<close>,
  \<^verbatim>\<open>type Table = { id: string; seatCount: number; position: { x: number; y: number } }\<close>
  and \<^verbatim>\<open>type LayoutState = { guests; tables; assignments; pool }\<close>. The field \<^verbatim>\<open>id\<close> is
  \<open>guest_id\<close> and \<open>table_id\<close> here. An assignment map is a JavaScript object whose own
  keys are kept in insertion order: an association list with \<open>None\<close> for \<^verbatim>\<open>null\<close>.
\<close>

record guest =
  guest_id :: string
  guest_name :: string
  details :: "string option"

record position =
  pos_x :: jsnum
  pos_y :: jsnum

record table =
  table_id :: string
  seatCount :: jsnum
  position :: position

type_synonym assignments = "(string \<times> string option) list"

record layout_state =
  guests :: "guest list"
  tables :: "table list"
  assignments :: assignments
  pool :: "string list"

record app_state = layout_state +
  selectedSeatKeys :: "string list"

text \<open>
  \<^verbatim>\<open>obj[key]\<close> read as the handlers test it (\<^verbatim>\<open>if (guestId)\<close>): the guest id when the
  entry holds a non-empty string, nothing for a missing key, \<^verbatim>\<open>null\<close> or \<^verbatim>\<open>''\<close>. Seat
  keys contain a colon, which no property of \<^verbatim>\<open>Object.prototype\<close> does, so reading a seat
  key reads an own property.
\<close>

definition occupant :: "assignments \<Rightarrow> string \<Rightarrow> string option" where
  "occupant m key =
     (case map_of m key of Some (Some guestId) \<Rightarrow> (if guestId = [] then None else Some guestId)
      | _ \<Rightarrow> None)"

text \<open>\<^verbatim>\<open>obj[key] = value\<close> and \<^verbatim>\<open>delete obj[key]\<close> on own properties.\<close>

definition obj_set :: "assignments \<Rightarrow> string \<Rightarrow> string option \<Rightarrow> assignments" where
  "obj_set m key v = AList.update key v m"

definition obj_delete :: "assignments \<Rightarrow> string \<Rightarrow> assignments" where
  "obj_delete m key = AList.delete key m"

text \<open>A JavaScript \<^verbatim>\<open>Set\<close> of strings in insertion order; \<^verbatim>\<open>Array.from(new Set(xs))\<close>.\<close>

definition set_add :: "'a \<Rightarrow> 'a list \<Rightarrow> 'a list" where
  "set_add x seen = (if x \<in> set seen then seen else seen @ [x])"

definition uniq :: "'a list \<Rightarrow> 'a list" where
  "uniq xs = fold set_add xs []"

text \<open>\<^verbatim>\<open>guestMap.has(guestId)\<close>, the map being built from the guest list.\<close>

definition guestMap_has :: "guest list \<Rightarrow> string \<Rightarrow> bool" where
  "guestMap_has gs guestId = (guestId \<in> set (map guest_id gs))"

text \<open>\<^verbatim>\<open>buildEmptyAssignments\<close> (lines 26-34).\<close>

definition buildEmptyAssignments :: "table list \<Rightarrow> assignments option" where
  "buildEmptyAssignments ts =
     fold (\<lambda>t acc. Option.bind acc
                (for_loop 0 (seatCount t) (\<lambda>seatIndex m. obj_set m (seatKey (table_id t) seatIndex) None)))
          ts (Some [])"

text \<open>\<^verbatim>\<open>returnGuestsToPool\<close> (lines 281-300): the pool after the call.\<close>

definition returnGuestsToPool :: "guest list \<Rightarrow> string list \<Rightarrow> string list \<Rightarrow> string list" where
  "returnGuestsToPool gs guestIds previousPool =
     (let uniqueIds = uniq guestIds in
      if uniqueIds = [] then previousPool
      else
        let filtered = filter (\<lambda>guestId. guestId \<notin> set uniqueIds) previousPool;
            additions = filter (guestMap_has gs) uniqueIds;
            merged = additions @ filtered
        in if merged = previousPool then previousPool else merged)"

text \<open>
  The pool reconciliation effect (lines 402-437), run after every change of the guests or of
  the assignments: the pool it leaves.
\<close>

definition assignedIds :: "guest list \<Rightarrow> assignments \<Rightarrow> string list" where
  "assignedIds gs m =
     uniq (filter (\<lambda>guestId. guestId \<in> set (map guest_id gs)) (List.map_filter snd m))"

definition reconcilePool :: "guest list \<Rightarrow> assignments \<Rightarrow> string list \<Rightarrow> string list" where
  "reconcilePool gs m previousPool =
     (let guestIds = uniq (map guest_id gs);
          assigned = assignedIds gs m;
          (next1, seen1) =
            fold (\<lambda>guestId (next, seen).
                    if guestId \<notin> set assigned \<and> guestId \<in> set guestIds \<and> guestId \<notin> set seen
                    then (next @ [guestId], set_add guestId seen) else (next, seen))
                 previousPool ([], []);
          (next2, seen2) =
            fold (\<lambda>g (next, seen).
                    if guest_id g \<notin> set assigned \<and> guest_id g \<notin> set seen
                    then (next @ [guest_id g], set_add (guest_id g) seen) else (next, seen))
                 gs (next1, seen1)
      in if next2 = previousPool then previousPool else next2)"

definition reconcile :: "app_state \<Rightarrow> app_state" where
  "reconcile s = s\<lparr>pool := reconcilePool (guests s) (assignments s) (pool s)\<rparr>"

text \<open>
  \<^verbatim>\<open>releaseSelectedSeats\<close> (lines 310-331). \<open>releaseSeats\<close> is its body for a list of seat
  keys; the handler runs it on the selection. The updater of line 316 pushes the guests it
  frees on \<^verbatim>\<open>returningGuests\<close>, but it is queued: at line 328 the array is still empty,
  and that is what \<^verbatim>\<open>returnGuestsToPool\<close> receives.
\<close>

definition releaseSeats :: "string list \<Rightarrow> app_state \<Rightarrow> app_state" where
  "releaseSeats seatKeys s =
     (if seatKeys = [] then s
      else
        let (next, returningGuests) =
              fold (\<lambda>seat (next, returning).
                      case occupant next seat of
                        Some guestId \<Rightarrow> (obj_set next seat None, returning @ [guestId])
                      | None \<Rightarrow> (next, returning))
                   seatKeys (assignments s, [])
        in s\<lparr>assignments := next,
              pool := returnGuestsToPool (guests s) [] (pool s),
              selectedSeatKeys := []\<rparr>)"

definition releaseSelectedSeats :: "app_state \<Rightarrow> app_state" where
  "releaseSelectedSeats s = releaseSeats (selectedSeatKeys s) s"

text \<open>
  \<^verbatim>\<open>assignGuestToSeat\<close> (lines 469-497). \<^verbatim>\<open>fromSeatKey\<close> is optional; the handler tests
  it with \<^verbatim>\<open>if (fromSeatKey)\<close>, which an empty string fails too.
\<close>

definition assignGuestToSeat :: "string \<Rightarrow> string \<Rightarrow> nat \<Rightarrow> string option \<Rightarrow> app_state \<Rightarrow> app_state" where
  "assignGuestToSeat guestId tableId seatIndex fromSeatKey s =
     (let key = seatKey tableId seatIndex in
      if \<not> guestMap_has (guests s) guestId then s
      else
        let displacedGuest = occupant (assignments s) key;
            next1 = obj_set (assignments s) key (Some guestId);
            next2 = (case fromSeatKey of
                       Some from \<Rightarrow> (if from \<noteq> [] then obj_set next1 from None else next1)
                     | None \<Rightarrow> next1);
            pool' = (case displacedGuest of
                       Some d \<Rightarrow> (if d \<noteq> guestId then returnGuestsToPool (guests s) [d] (pool s)
                                  else pool s)
                     | None \<Rightarrow> pool s)
        in s\<lparr>assignments := next2, pool := pool', selectedSeatKeys := [key]\<rparr>)"

text \<open>
  \<^verbatim>\<open>updateSeatCount\<close> (lines 621-661). \<^verbatim>\<open>===\<close> on numbers is false at \<^verbatim>\<open>NaN\<close>. A loop
  that starts at a number of the program runs from the natural number it is; \<open>None\<close> is a
  loop that does not end, and also a start that is below the bound without being a natural
  number (no seat count the program writes is one: each is the literal 8 or a result of
  \<^verbatim>\<open>Math.max(1, ... Math.floor ...)\<close>). As in \<^verbatim>\<open>releaseSelectedSeats\<close>, the array
  \<^verbatim>\<open>returningGuests\<close> is filled by the queued updater of line 635 and read, still empty,
  at line 660.
\<close>

definition js_strict_eq :: "jsnum \<Rightarrow> jsnum \<Rightarrow> bool" where
  "js_strict_eq a b = (a = b \<and> a \<noteq> NaN)"

definition for_from :: "jsnum \<Rightarrow> jsnum \<Rightarrow> (nat \<Rightarrow> 'a \<Rightarrow> 'a) \<Rightarrow> 'a \<Rightarrow> 'a option" where
  "for_from start bound body s =
     (if \<not> js_less start bound then Some s
      else case js_index start of Some i \<Rightarrow> for_loop i bound body s | None \<Rightarrow> None)"

definition sanitize :: "jsnum \<Rightarrow> jsnum" where
  "sanitize newSeatCount = js_max (Fin 1) (js_min (Fin 24) (js_floor newSeatCount))"

definition updateSeatCount :: "string \<Rightarrow> jsnum \<Rightarrow> app_state \<Rightarrow> app_state option" where
  "updateSeatCount tableId newSeatCount s =
     (let sanitized = sanitize newSeatCount in
      case find (\<lambda>entry. table_id entry = tableId) (tables s) of
        None \<Rightarrow> Some s
      | Some table \<Rightarrow>
          if js_strict_eq sanitized (seatCount table) then Some s
          else
            let tables' = map (\<lambda>entry. if table_id entry = tableId
                                         then entry\<lparr>seatCount := sanitized\<rparr> else entry) (tables s);
                looped =
                  (if js_less sanitized (seatCount table)
                   then for_from sanitized (seatCount table)
                          (\<lambda>seatIdx (next, returning).
                             let key = seatKey (table_id table) seatIdx in
                             (obj_delete next key,
                              case occupant next key of Some guestId \<Rightarrow> returning @ [guestId]
                              | None \<Rightarrow> returning))
                          (assignments s, [])
                   else for_from (seatCount table) sanitized
                          (\<lambda>seatIdx (next, returning).
                             (obj_set next (seatKey (table_id table) seatIdx) None, returning))
                          (assignments s, []))
            in map_option
                 (\<lambda>(next, returningGuests).
                    s\<lparr>tables := tables', assignments := next,
                      pool := returnGuestsToPool (guests s) [] (pool s)\<rparr>)
                 looped)"

text \<open>
  \<^verbatim>\<open>handleRemoveTable\<close> (lines 663-688). Here too \<^verbatim>\<open>returningGuests\<close> is filled by the
  queued updater of line 665 and read, still empty, at line 679.
\<close>

definition handleRemoveTable :: "string \<Rightarrow> app_state \<Rightarrow> app_state" where
  "handleRemoveTable tableId s =
     (let (next, returningGuests) =
            fold (\<lambda>key (next, returning).
                    if startsWithTable key tableId
                    then (obj_delete next key,
                          case occupant next key of Some guestId \<Rightarrow> returning @ [guestId]
                          | None \<Rightarrow> returning)
                    else (next, returning))
                 (map fst (assignments s)) (assignments s, [])
      in s\<lparr>assignments := next,
            pool := returnGuestsToPool (guests s) [] (pool s),
            tables := filter (\<lambda>t. table_id t \<noteq> tableId) (tables s),
            selectedSeatKeys := filter (\<lambda>key. \<not> startsWithTable key tableId) (selectedSeatKeys s)\<rparr>)"


text \<open>
  The state the component starts in when nothing is stored (lines 36-62 and 233-245):
  \<^verbatim>\<open>DEFAULT_GUESTS\<close>, \<^verbatim>\<open>DEFAULT_TABLES\<close>, the empty assignments of these tables and every
  guest in the pool.
\<close>

definition DEFAULT_GUESTS :: "guest list" where
  "DEFAULT_GUESTS =
     [\<lparr>guest_id = ''guest-1'', guest_name = ''Alice'', details = None\<rparr>,
      \<lparr>guest_id = ''guest-2'', guest_name = ''Bob'', details = None\<rparr>,
      \<lparr>guest_id = ''guest-3'', guest_name = ''Charlie'', details = None\<rparr>,
      \<lparr>guest_id = ''guest-4'', guest_name = ''Diana'', details = None\<rparr>,
      \<lparr>guest_id = ''guest-5'', guest_name = ''Elliot'', details = None\<rparr>,
      \<lparr>guest_id = ''guest-6'', guest_name = ''Fiona'', details = None\<rparr>,
      \<lparr>guest_id = ''guest-7'', guest_name = ''George'', details = None\<rparr>,
      \<lparr>guest_id = ''guest-8'', guest_name = ''Hannah'', details = None\<rparr>,
      \<lparr>guest_id = ''guest-9'', guest_name = ''Isaac'', details = None\<rparr>,
      \<lparr>guest_id = ''guest-10'', guest_name = ''Jasmine'', details = None\<rparr>,
      \<lparr>guest_id = ''guest-11'', guest_name = ''Karl'', details = None\<rparr>,
      \<lparr>guest_id = ''guest-12'', guest_name = ''Luna'', details = None\<rparr>]"

definition DEFAULT_TABLES :: "table list" where
  "DEFAULT_TABLES =
     [\<lparr>table_id = ''table-1'', seatCount = Fin 8, position = \<lparr>pos_x = Fin 120, pos_y = Fin 100\<rparr>\<rparr>,
      \<lparr>table_id = ''table-2'', seatCount = Fin 8, position = \<lparr>pos_x = Fin 420, pos_y = Fin 300\<rparr>\<rparr>]"

definition initial_state :: "app_state option" where
  "initial_state =
     map_option
       (\<lambda>initialAssignments.
          \<lparr>guests = DEFAULT_GUESTS, tables = DEFAULT_TABLES, assignments = initialAssignments,
           pool = map guest_id DEFAULT_GUESTS, selectedSeatKeys = []\<rparr>)
       (buildEmptyAssignments DEFAULT_TABLES)"

text \<open>
  The four operations on the model, each followed by the reconciliation effect, which
  React runs after a render in which the assignments or the guests changed. It is this
  effect that puts the guests freed by the three handlers above into the pool.
\<close>

datatype operation =
    AssignGuest string string nat "string option"
  | ReleaseSeats "string list"
  | ResizeTable string jsnum
  | RemoveTable string

fun step :: "operation \<Rightarrow> app_state \<Rightarrow> app_state option" where
  "step (AssignGuest guestId tableId seatIndex fromSeatKey) s =
     Some (reconcile (assignGuestToSeat guestId tableId seatIndex fromSeatKey s))"
| "step (ReleaseSeats seatKeys) s = Some (reconcile (releaseSeats seatKeys s))"
| "step (ResizeTable tableId newSeatCount) s = map_option reconcile (updateSeatCount tableId newSeatCount s)"
| "step (RemoveTable tableId) s = Some (reconcile (handleRemoveTable tableId s))"

section \<open>The normalizer\<close>

text \<open>
  The payload is what \<^verbatim>\<open>JSON.parse\<close> returns, or the snapshot object itself. An object
  is the list of its own properties in the order \<^verbatim>\<open>Object.entries\<close> lists them (a real
  object has each key once). \<^verbatim>\<open>JSON.parse\<close> yields \<^verbatim>\<open>Infinity\<close> for a literal such as
  \<^verbatim>\<open>1e999\<close>, so a number of a payload can be infinite; it cannot be \<^verbatim>\<open>NaN\<close>, but
  \<^verbatim>\<open>Number(text)\<close> can.
\<close>

datatype json =
    JNull
  | JBool bool
  | JNum jsnum
  | JStr string
  | JArr "json list"
  | JObj "(string \<times> json) list"

text \<open>\<^verbatim>\<open>typeof v === 'object'\<close>: true of \<^verbatim>\<open>null\<close> and of arrays too.\<close>

fun typeof_object :: "json \<Rightarrow> bool" where
  "typeof_object JNull = True"
| "typeof_object (JArr _) = True"
| "typeof_object (JObj _) = True"
| "typeof_object _ = False"

text \<open>
  \<^verbatim>\<open>v.field\<close> for a value that is an object or an array, \<open>None\<close> for \<^verbatim>\<open>undefined\<close>.
  None of the fields read (\<^verbatim>\<open>tables\<close>, \<^verbatim>\<open>guests\<close>, \<^verbatim>\<open>assignments\<close>,
  \<^verbatim>\<open>unassigned\<close>, \<^verbatim>\<open>id\<close>, \<^verbatim>\<open>name\<close>, \<^verbatim>\<open>details\<close>, \<^verbatim>\<open>seatCount\<close>,
  \<^verbatim>\<open>position\<close>, \<^verbatim>\<open>x\<close>, \<^verbatim>\<open>y\<close>) is a property of \<^verbatim>\<open>Object.prototype\<close> or of
  \<^verbatim>\<open>Array.prototype\<close>, so only own properties count, and an array has none of them.
\<close>

fun get_prop :: "json \<Rightarrow> string \<Rightarrow> json option" where
  "get_prop (JObj kvs) field = map_of kvs field"
| "get_prop _ field = None"

datatype error = TypeError

text \<open>\<^verbatim>\<open>Object.entries(v)\<close> for a value whose \<^verbatim>\<open>typeof\<close> is \<^verbatim>\<open>'object'\<close>: it throws on \<^verbatim>\<open>null\<close>.\<close>

fun object_entries :: "json \<Rightarrow> error + (string \<times> json) list" where
  "object_entries (JObj kvs) = Inr kvs"
| "object_entries (JArr xs) = Inr (zip (map decimal [0..<length xs]) xs)"
| "object_entries _ = Inl TypeError"

text \<open>
  The property names of \<^verbatim>\<open>Object.prototype\<close> (ECMAScript with Annex B). The object
  \<^verbatim>\<open>buildEmptyAssignments\<close> returns is an object literal, so \<^verbatim>\<open>key in map\<close> is true of
  these names too, as long as the object has that prototype. Every one of them is a writable
  data property, which an assignment shadows by an own property, but \<^verbatim>\<open>__proto__\<close>: it is
  an accessor whose setter replaces the prototype when given \<^verbatim>\<open>null\<close> and ignores a string.
  The flag beside the map says whether the prototype is still \<^verbatim>\<open>Object.prototype\<close>.
\<close>

definition object_prototype_keys :: "string list" where
  "object_prototype_keys =
     [''constructor'', ''__defineGetter__'', ''__defineSetter__'', ''hasOwnProperty'',
      ''__lookupGetter__'', ''__lookupSetter__'', ''isPrototypeOf'', ''propertyIsEnumerable'',
      ''toString'', ''valueOf'', ''__proto__'', ''toLocaleString'']"

definition js_in :: "string \<Rightarrow> assignments \<times> bool \<Rightarrow> bool" where
  "js_in key obj = (key \<in> set (map fst (fst obj)) \<or> (snd obj \<and> key \<in> set object_prototype_keys))"

definition js_assign :: "string \<Rightarrow> string option \<Rightarrow> assignments \<times> bool \<Rightarrow> assignments \<times> bool" where
  "js_assign key v obj =
     (if key = ''__proto__'' \<and> key \<notin> set (map fst (fst obj)) \<and> snd obj
      then (case v of None \<Rightarrow> (fst obj, False) | Some _ \<Rightarrow> obj)
      else (obj_set (fst obj) key v, snd obj))"

text \<open>
  The two reducers (lines 91-161): one item of \<^verbatim>\<open>tables\<close>, one item of \<^verbatim>\<open>guests\<close>;
  \<open>None\<close> when the item is skipped. \<^verbatim>\<open>Number(text)\<close> is a parameter, \<open>toNumber\<close>.
\<close>

definition number_field :: "(string \<Rightarrow> jsnum) \<Rightarrow> json option \<Rightarrow> jsnum \<Rightarrow> jsnum" where
  "number_field toNumber v otherwise =
     (case v of Some (JNum n) \<Rightarrow> n | Some (JStr text) \<Rightarrow> toNumber text | _ \<Rightarrow> otherwise)"

definition string_field :: "json option \<Rightarrow> string" where
  "string_field v = (case v of Some (JStr text) \<Rightarrow> text | _ \<Rightarrow> [])"

definition clean_table :: "(string \<Rightarrow> jsnum) \<Rightarrow> json \<Rightarrow> table option" where
  "clean_table toNumber item =
     (if \<not> typeof_object item \<or> item = JNull then None
      else
        let id = string_field (get_prop item ''id'');
            seatCount = number_field toNumber (get_prop item ''seatCount'') NaN;
            positionRecord =
              (case get_prop item ''position'' of
                 Some p \<Rightarrow> (if typeof_object p \<and> p \<noteq> JNull then Some p else None)
               | None \<Rightarrow> None);
            rawX = Option.bind positionRecord (\<lambda>p. get_prop p ''x'');
            rawY = Option.bind positionRecord (\<lambda>p. get_prop p ''y'');
            x = number_field toNumber rawX (Fin 0);
            y = number_field toNumber rawY (Fin 0)
        in if id = [] \<or> isNaN seatCount then None
           else Some \<lparr>table_id = id,
                      seatCount = js_max (Fin 1) (js_floor seatCount),
                      position = \<lparr>pos_x = (if isFinite x then x else Fin 0),
                                  pos_y = (if isFinite y then y else Fin 0)\<rparr>\<rparr>)"

definition clean_guest :: "json \<Rightarrow> guest option" where
  "clean_guest item =
     (if \<not> typeof_object item \<or> item = JNull then None
      else
        let id = string_field (get_prop item ''id'');
            name = string_field (get_prop item ''name'')
        in if id = [] \<or> name = [] then None
           else Some \<lparr>guest_id = id, guest_name = name,
                      details = (case get_prop item ''details'' of Some (JStr text) \<Rightarrow> Some text
                                 | _ \<Rightarrow> None)\<rparr>)"

text \<open>
  The callback of \<^verbatim>\<open>Object.entries(rawAssignments).forEach\<close> (lines 169-178), on the map
  under construction.
\<close>

definition assign_entry :: "string list \<Rightarrow> string \<times> json \<Rightarrow> assignments \<times> bool \<Rightarrow> assignments \<times> bool" where
  "assign_entry guestIds entry obj =
     (case entry of
        (key, v) \<Rightarrow>
          if \<not> js_in key obj then obj
          else (case v of
                  JStr guestId \<Rightarrow>
                    (if guestId \<in> set guestIds then js_assign key (Some guestId) obj
                     else js_assign key None obj)
                | _ \<Rightarrow> js_assign key None obj))"

text \<open>
  \<^verbatim>\<open>normalizeLayoutPayload\<close> (lines 74-213). The result: \<open>None\<close> when the call does not
  return (a loop of \<^verbatim>\<open>buildEmptyAssignments\<close> does not end), \<open>Some (Inl TypeError)\<close> when
  it throws, \<open>Some (Inr None)\<close> when it returns \<^verbatim>\<open>null\<close>, \<open>Some (Inr (Some state))\<close> when it
  returns a state.
\<close>

definition normalizeLayoutPayload ::
    "(string \<Rightarrow> jsnum) \<Rightarrow> json \<Rightarrow> (error + layout_state option) option" where
  "normalizeLayoutPayload toNumber payload =
     (case (if typeof_object payload \<and> payload \<noteq> JNull
            then (get_prop payload ''tables'', get_prop payload ''guests'', get_prop payload ''assignments'')
            else (None, None, None)) of
        (Some (JArr rawTables), Some (JArr rawGuests), Some rawAssignments) \<Rightarrow>
          if \<not> typeof_object rawAssignments then Some (Inr None)
          else
            let rawUnassigned = get_prop payload ''unassigned'';
                cleanedTables = List.map_filter (clean_table toNumber) rawTables;
                cleanedGuests = List.map_filter clean_guest rawGuests
            in if cleanedGuests = [] then Some (Inr None)
               else
                 let guestIds = uniq (map guest_id cleanedGuests) in
                 (case buildEmptyAssignments cleanedTables of
                    None \<Rightarrow> None
                  | Some emptyAssignments \<Rightarrow>
                      (case object_entries rawAssignments of
                         Inl e \<Rightarrow> Some (Inl e)
                       | Inr entries \<Rightarrow>
                           let normalizedAssignments =
                                 fst (fold (assign_entry guestIds) entries (emptyAssignments, True));
                               assignedSet =
                                 uniq (filter (\<lambda>guestId. guestId \<in> set guestIds)
                                         (List.map_filter snd normalizedAssignments));
                               poolSnapshot =
                                 (case rawUnassigned of
                                    Some (JArr ids) \<Rightarrow>
                                      List.map_filter (\<lambda>v. case v of JStr text \<Rightarrow> Some text | _ \<Rightarrow> None) ids
                                  | _ \<Rightarrow> []);
                               (pool1, seen1) =
                                 fold (\<lambda>guestId (pool, seen).
                                         if guestId \<notin> set assignedSet \<and> guestId \<in> set guestIds
                                            \<and> guestId \<notin> set seen
                                         then (pool @ [guestId], set_add guestId seen) else (pool, seen))
                                      poolSnapshot ([], []);
                               (pool2, seen2) =
                                 fold (\<lambda>g (pool, seen).
                                         if guest_id g \<notin> set assignedSet \<and> guest_id g \<notin> set seen
                                         then (pool @ [guest_id g], set_add (guest_id g) seen)
                                         else (pool, seen))
                                      cleanedGuests (pool1, seen1)
                           in Some (Inr (Some \<lparr>guests = cleanedGuests, tables = cleanedTables,
                                                assignments = normalizedAssignments, pool = pool2\<rparr>))))
      | _ \<Rightarrow> Some (Inr None))"

text \<open>
  The snapshot \<^verbatim>\<open>handleLayoutExport\<close> builds (lines 786-793). A guest without details has
  no \<^verbatim>\<open>details\<close> string; reading the field gives \<^verbatim>\<open>undefined\<close>, as for a missing key.
\<close>

definition guest_json :: "guest \<Rightarrow> json" where
  "guest_json g =
     JObj ([(''id'', JStr (guest_id g)), (''name'', JStr (guest_name g))]
           @ (case details g of Some text \<Rightarrow> [(''details'', JStr text)] | None \<Rightarrow> []))"

definition table_json :: "table \<Rightarrow> json" where
  "table_json t =
     JObj [(''id'', JStr (table_id t)), (''seatCount'', JNum (seatCount t)),
           (''position'', JObj [(''x'', JNum (pos_x (position t))), (''y'', JNum (pos_y (position t)))])]"

definition assignments_json :: "assignments \<Rightarrow> json" where
  "assignments_json m =
     JObj (map (\<lambda>(key, v). (key, case v of Some guestId \<Rightarrow> JStr guestId | None \<Rightarrow> JNull)) m)"

definition snapshot :: "app_state \<Rightarrow> json" where
  "snapshot s =
     JObj [(''version'', JNum (Fin 1)),
           (''guests'', JArr (map guest_json (guests s))),
           (''tables'', JArr (map table_json (tables s))),
           (''assignments'', assignments_json (assignments s)),
           (''unassigned'', JArr (map JStr (pool s)))]"

section \<open>The guest-list import\<close>

text \<open>
  Strings: a \<^typ>\<open>char\<close> is a UTF-16 code unit below 256, that is, a character of Latin-1;
  a name with a code unit above that is outside the model. \<^verbatim>\<open>String.prototype.trim\<close> removes
  white space and line terminators from both ends; below 256 these are the code units
  9 to 13, 32 and 160.
\<close>

definition js_whitespace :: "char \<Rightarrow> bool" where
  "js_whitespace c =
     (c \<in> set [CHR 0x09, CHR 0x0A, CHR 0x0B, CHR 0x0C, CHR 0x0D, CHR 0x20, CHR 0xA0])"

definition js_trim :: "string \<Rightarrow> string" where
  "js_trim s = rev (dropWhile js_whitespace (rev (dropWhile js_whitespace s)))"

text \<open>
  \<^verbatim>\<open>toLowerCase\<close> below 256: the letters A to Z, and the letters 192 to 222 other than the
  multiplication sign 215, move up by 32.
\<close>

definition lower_char :: "char \<Rightarrow> char" where
  "lower_char c =
     (let n = of_char c :: nat
      in if (65 \<le> n \<and> n \<le> 90) \<or> (192 \<le> n \<and> n \<le> 222 \<and> n \<noteq> 215) then char_of (n + 32) else c)"

definition toLowerCase :: "string \<Rightarrow> string" where
  "toLowerCase s = map lower_char s"

definition is_alnum :: "char \<Rightarrow> bool" where
  "is_alnum c = (c \<in> set ''abcdefghijklmnopqrstuvwxyz0123456789'')"

text \<open>
  \<^verbatim>\<open>.replace(/[^a-z0-9]+/g, '-')\<close>: scanning from the left, every maximal run of characters
  outside \<^verbatim>\<open>a-z0-9\<close> is replaced by one hyphen; the hyphen is written at the last character
  of the run.
\<close>

fun hyphenate :: "string \<Rightarrow> string" where
  "hyphenate [] = []"
| "hyphenate [c] = (if is_alnum c then [c] else ''-'')"
| "hyphenate (c # d # cs) =
     (if is_alnum c then c # hyphenate (d # cs)
      else if is_alnum d then CHR ''-'' # hyphenate (d # cs)
      else hyphenate (d # cs))"

text \<open>\<^verbatim>\<open>.replace(/^-+|-+$/g, '')\<close>: the hyphens at the start, then the hyphens at the end.\<close>

definition strip_hyphens :: "string \<Rightarrow> string" where
  "strip_hyphens s =
     rev (dropWhile (\<lambda>c. c = CHR ''-'') (rev (dropWhile (\<lambda>c. c = CHR ''-'') s)))"

definition fallbackId :: "string \<Rightarrow> string" where
  "fallbackId rawName = strip_hyphens (hyphenate (toLowerCase rawName))"

text \<open>
  \<^verbatim>\<open>while (seenIds.has(`${baseId}-${suffix}`)) suffix += 1\<close>, as a function of the value of
  \<^verbatim>\<open>suffix\<close> at the loop's entry; its value is \<^verbatim>\<open>suffix\<close> at the loop's exit. The loop
  ends: an id of the set is no longer than the longest one, and a number is below ten to
  the number of its digits.
\<close>

function next_suffix :: "string list \<Rightarrow> string \<Rightarrow> nat \<Rightarrow> nat" where
  "next_suffix seenIds base n =
     (if base @ ''-'' @ decimal n \<in> set seenIds
      then next_suffix seenIds base (n + 1) else n)"
  by pat_completeness auto
termination
proof (relation "measure (\<lambda>(seenIds, base, n).
    10 ^ Max (insert 0 (length ` set seenIds)) - n)")
  show "wf (measure (\<lambda>(seenIds :: string list, base :: string, n :: nat).
    10 ^ Max (insert 0 (length ` set seenIds)) - n))"
    by simp
next
  fix seenIds :: "string list" and base :: string and n :: nat
  assume m: "base @ ''-'' @ decimal n \<in> set seenIds"
  have bound: "m < 10 ^ length (decimal m)" for m
  proof (induction m rule: decimal.induct)
    case (1 n)
    show ?case
    proof (cases "n < 10")
      case True
      then show ?thesis by (subst decimal.simps) simp
    next
      case False
      with 1 have "n div 10 < 10 ^ length (decimal (n div 10))" by simp
      then have "n < 10 * 10 ^ length (decimal (n div 10))" by linarith
      with False show ?thesis by (subst decimal.simps) simp
    qed
  qed
  let ?M = "Max (insert 0 (length ` set seenIds))"
  from m have "length (base @ ''-'' @ decimal n) \<in> length ` set seenIds"
    by (rule imageI)
  then have "length (base @ ''-'' @ decimal n) \<le> ?M"
    by (intro Max_ge) simp_all
  then have "length (decimal n) \<le> ?M" by simp
  then have "(10::nat) ^ length (decimal n) \<le> 10 ^ ?M"
    by (intro power_increasing) simp_all
  with bound [of n] have "n < 10 ^ ?M" by linarith
  then show "((seenIds, base, n + 1), (seenIds, base, n))
    \<in> measure (\<lambda>(seenIds, base, n). 10 ^ Max (insert 0 (length ` set seenIds)) - n)"
    by simp
qed

declare next_suffix.simps [simp del]

text \<open>The id pushed for a record whose \<^verbatim>\<open>baseId\<close> is \<open>base\<close> (lines 729-736).\<close>

definition candidateId :: "string list \<Rightarrow> string \<Rightarrow> string" where
  "candidateId seenIds base =
     (if base \<in> set seenIds then base @ ''-'' @ decimal (next_suffix seenIds base 2) else base)"

text \<open>
  The callback of \<^verbatim>\<open>raw.forEach\<close> (lines 707-746), on the pair of \<^verbatim>\<open>seenIds\<close> and
  \<^verbatim>\<open>cleaned\<close>. An empty string is falsy, so \<^verbatim>\<open>providedId || fallbackId\<close> is the provided
  id unless that is empty.
\<close>

definition import_guest :: "json \<Rightarrow> string list \<times> guest list \<Rightarrow> string list \<times> guest list" where
  "import_guest item acc =
     (case acc of
        (seenIds, cleaned) \<Rightarrow>
          if \<not> typeof_object item \<or> item = JNull then acc
          else
            let rawName = js_trim (string_field (get_prop item ''name''))
            in if rawName = [] then acc
               else
                 let providedId = js_trim (string_field (get_prop item ''id''));
                     baseId = (if providedId \<noteq> [] then providedId else fallbackId rawName)
                 in if baseId = [] then acc
                    else (set_add (candidateId seenIds baseId) seenIds,
                          cleaned @ [\<lparr>guest_id = candidateId seenIds baseId, guest_name = rawName,
                                      details = (case get_prop item ''details'' of
                                                   Some (JStr text) \<Rightarrow> Some text
                                                 | _ \<Rightarrow> None)\<rparr>]))"

definition cleaned :: "json list \<Rightarrow> guest list" where
  "cleaned raw = snd (fold import_guest raw ([], []))"

text \<open>
  The first part of \<^verbatim>\<open>handleGuestFileImport\<close> (lines 700-752), from the parsed file to the
  guest list that the handler goes on to store, or the error it throws and reports.
\<close>

datatype import_error = InvalidGuestFile | NoValidGuests

definition import_guest_list :: "json \<Rightarrow> import_error + guest list" where
  "import_guest_list raw =
     (case raw of
        JArr items \<Rightarrow> (if cleaned items = [] then Inl NoValidGuests else Inr (cleaned items))
      | _ \<Rightarrow> Inl InvalidGuestFile)"

section \<open>The specification's wording, as definitions\<close>

text \<open>
  The pool the specification asks of the reconciliation pass: the guest ids of the previous
  pool that are known and unassigned, in their order, without repetition, then the other
  known and unassigned guest ids in the order of the guest list.
\<close>

definition pool_as_specified :: "guest list \<Rightarrow> assignments \<Rightarrow> string list \<Rightarrow> string list" where
  "pool_as_specified gs m previousPool =
     (let known = set (map guest_id gs);
          assigned = set (List.map_filter snd m);
          kept = uniq (filter (\<lambda>g. g \<in> known \<and> g \<notin> assigned) previousPool)
      in kept @ uniq (filter (\<lambda>g. g \<notin> assigned \<and> g \<notin> set kept) (map guest_id gs)))"

text \<open>
  The core invariant of the specification: the pool and the non-empty assignment values
  together are the guest ids, no guest id occurs twice in the pool or twice among the
  assignment values, and none occurs in both.
\<close>

definition assignedValues :: "assignments \<Rightarrow> string list" where
  "assignedValues m = List.map_filter snd m"

definition core_invariant :: "app_state \<Rightarrow> bool" where
  "core_invariant s =
     (set (pool s) \<union> set (assignedValues (assignments s)) = set (map guest_id (guests s))
      \<and> distinct (pool s)
      \<and> distinct (assignedValues (assignments s))
      \<and> set (pool s) \<inter> set (assignedValues (assignments s)) = {})"

text \<open>
  An assignment map is an object: each key once.
\<close>

definition keys_once :: "app_state \<Rightarrow> bool" where
  "keys_once s = distinct (map fst (assignments s))"




text \<open>The seat keys of the actual seats of a list of tables: the indices below the seat count.\<close>

definition seats_of :: "table list \<Rightarrow> string set" where
  "seats_of ts = {seatKey (table_id t) i | t i. t \<in> set ts \<and> js_less (Fin (of_nat i)) (seatCount t)}"


text \<open>
  The invariants of the data model (section 3 of the specification) on the persisted part
  of a state: guest ids unique and non-empty, names non-empty; table ids unique, seat counts
  integers from 1 up; the assignment map has exactly one entry for every seat key of every
  current table and no other key; and the core invariant of pool and assignments.
\<close>

definition model_invariants :: "app_state \<Rightarrow> bool" where
  "model_invariants s =
     (distinct (map guest_id (guests s))
      \<and> (\<forall>g \<in> set (guests s). guest_id g \<noteq> [] \<and> guest_name g \<noteq> [])
      \<and> distinct (map table_id (tables s))
      \<and> (\<forall>t \<in> set (tables s). \<exists>n\<ge>1. seatCount t = Fin (of_nat n))
      \<and> keys_once s
      \<and> set (map fst (assignments s)) = seats_of (tables s)
      \<and> core_invariant s)"

text \<open>What the normalizer asks of a table beyond that: a non-empty id and finite coordinates.\<close>

definition tables_importable :: "app_state \<Rightarrow> bool" where
  "tables_importable s =
     (\<forall>t \<in> set (tables s). table_id t \<noteq> [] \<and> isFinite (pos_x (position t)) \<and> isFinite (pos_y (position t)))"

text \<open>
  The name-derived id in the specification's words: the name in lower case, every run of
  characters that are not alphanumeric collapsed to one hyphen, no hyphen at either end.
  That is, the maximal runs of alphanumeric characters of the lower-case name, joined by
  single hyphens.
\<close>

function alnum_runs :: "string \<Rightarrow> string list" where
  "alnum_runs [] = []"
| "alnum_runs (c # cs) =
     (if is_alnum c then (c # takeWhile is_alnum cs) # alnum_runs (dropWhile is_alnum cs)
      else alnum_runs cs)"
  by pat_completeness auto
termination
  by (relation "measure length") (auto simp add: le_imp_less_Suc length_dropWhile_le)

fun join_hyphen :: "string list \<Rightarrow> string" where
  "join_hyphen [] = []"
| "join_hyphen [w] = w"
| "join_hyphen (w # v # ws) = w @ ''-'' @ join_hyphen (v # ws)"

definition slug :: "string \<Rightarrow> string" where
  "slug name = join_hyphen (alnum_runs (toLowerCase name))"

section \<open>Concrete states and inputs\<close>

text \<open>Three guests, one table of two seats; two guests seated, one in the pool.\<close>

definition guest_of :: "string \<Rightarrow> string \<Rightarrow> guest" where
  "guest_of i n = \<lparr>guest_id = i, guest_name = n, details = None\<rparr>"

definition table_of :: "string \<Rightarrow> nat \<Rightarrow> table" where
  "table_of i n = \<lparr>table_id = i, seatCount = Fin (of_nat n), position = \<lparr>pos_x = Fin 0, pos_y = Fin 0\<rparr>\<rparr>"

definition seated_state :: app_state where
  "seated_state =
     \<lparr>guests = [guest_of ''g1'' ''Ann'', guest_of ''g2'' ''Bob'', guest_of ''g3'' ''Cy''],
      tables = [table_of ''t'' 2],
      assignments = [(''t:0'', Some ''g1''), (''t:1'', Some ''g2'')],
      pool = [''g3''],
      selectedSeatKeys = []\<rparr>"



text \<open>One table of four seats, all taken.\<close>

definition full_table_state :: app_state where
  "full_table_state =
     \<lparr>guests = [guest_of ''g1'' ''Ann'', guest_of ''g2'' ''Bob'', guest_of ''g3'' ''Cy'',
                guest_of ''g4'' ''Di'', guest_of ''g5'' ''Ed''],
      tables = [table_of ''t'' 4],
      assignments = [(''t:0'', Some ''g1''), (''t:1'', Some ''g2''), (''t:2'', Some ''g3''),
                     (''t:3'', Some ''g4'')],
      pool = [''g5''],
      selectedSeatKeys = []\<rparr>"

definition alice_record :: json where
  "alice_record = JObj [(''name'', JStr ''Alice'')]"

definition padded_id_record :: json where
  "padded_id_record = JObj [(''id'', JStr '' bob ''), (''name'', JStr ''Bob'')]"

definition reused_suffix_records :: "json list" where
  "reused_suffix_records =
     [JObj [(''id'', JStr ''a-2''), (''name'', JStr ''X'')],
      JObj [(''id'', JStr ''a''), (''name'', JStr ''Y'')],
      JObj [(''id'', JStr ''a''), (''name'', JStr ''Z'')]]"

section \<open>Two views of an assignment map used in the proofs\<close>



text \<open>
  Payloads. None of them holds a numeric text, so \<^verbatim>\<open>Number\<close> is never called on them;
  \<open>not_numeric\<close> stands for it.
\<close>

definition not_numeric :: "string \<Rightarrow> jsnum" where
  "not_numeric text = NaN"

text \<open>
  A payload with a malformed guest, a fractional seat count, an assignment to a guest that
  does not exist, an assignment on a seat of a table that does not exist, and a pool list
  with a repetition, an unknown id and a \<^verbatim>\<open>null\<close>; and the state the normalizer returns.
\<close>

definition mixed_payload :: json where
  "mixed_payload =
     JObj [(''version'', JNum (Fin 1)),
           (''guests'', JArr [guest_json (guest_of ''g1'' ''Ann''), guest_json (guest_of ''g2'' ''Bob''),
                              JStr ''junk'', JObj [(''id'', JStr ''g3'')]]),
           (''tables'', JArr [JObj [(''id'', JStr ''t''), (''seatCount'', JNum (Fin (5 / 2)))]]),
           (''assignments'', JObj [(''t:0'', JStr ''g1''), (''t:1'', JStr ''zz''), (''x:0'', JStr ''g2'')]),
           (''unassigned'', JArr [JStr ''g2'', JStr ''g2'', JStr ''qq'', JNull])]"

definition mixed_normalized :: layout_state where
  "mixed_normalized =
     \<lparr>guests = [guest_of ''g1'' ''Ann'', guest_of ''g2'' ''Bob''],
      tables = [table_of ''t'' 2],
      assignments = [(''t:0'', Some ''g1''), (''t:1'', None)],
      pool = [''g2'']\<rparr>"

text \<open>A payload that seats one guest twice.\<close>

definition double_seat_payload :: json where
  "double_seat_payload =
     JObj [(''guests'', JArr [guest_json (guest_of ''g1'' ''Ann'')]),
           (''tables'', JArr [table_json (table_of ''t'' 2)]),
           (''assignments'', JObj [(''t:0'', JStr ''g1''), (''t:1'', JStr ''g1'')])]"

text \<open>A payload whose \<^verbatim>\<open>assignments\<close> field is \<^verbatim>\<open>null\<close>.\<close>

definition null_assignments_payload :: json where
  "null_assignments_payload =
     JObj [(''guests'', JArr [guest_json (guest_of ''g1'' ''Ann'')]),
           (''tables'', JArr []),
           (''assignments'', JNull)]"

text \<open>A payload with a table whose seat count is \<^verbatim>\<open>Infinity\<close> (the literal \<^verbatim>\<open>1e999\<close> in a file).\<close>

definition infinite_seats_payload :: json where
  "infinite_seats_payload =
     JObj [(''guests'', JArr [guest_json (guest_of ''g1'' ''Ann'')]),
           (''tables'', JArr [JObj [(''id'', JStr ''t''), (''seatCount'', JNum PosInf)]]),
           (''assignments'', JObj [])]"

text \<open>A payload with an assignment under a key that \<^verbatim>\<open>Object.prototype\<close> has.\<close>

definition constructor_payload :: json where
  "constructor_payload =
     JObj [(''guests'', JArr [guest_json (guest_of ''g1'' ''Ann'')]),
           (''tables'', JArr []),
           (''assignments'', JObj [(''constructor'', JStr ''g1'')])]"

text \<open>What the callback of the assignment loop stores for a value of the payload.\<close>

definition clean_value :: "string list \<Rightarrow> json \<Rightarrow> string option" where
  "clean_value G v = (case v of JStr g \<Rightarrow> (if g \<in> set G then Some g else None) | _ \<Rightarrow> None)"

section \<open>Facts about loops and seat keys\<close>

lemma lt_ceiling_nat: "(rat_of_nat i < q) = (i < nat \<lceil>q\<rceil>)"
  by (simp add: zless_nat_eq_int_zless less_ceiling_iff)

lemma for_loop_Fin:
  "for_loop i (Fin q) body s = Some (fold body [i..<nat \<lceil>q\<rceil>] s)"
proof (induction "nat \<lceil>q\<rceil> - i" arbitrary: i s)
  case 0
  then have "\<not> rat_of_nat i < q"
    by (simp add: lt_ceiling_nat)
  with 0 show ?case
    by (subst for_loop.simps) simp
next
  case (Suc d)
  then have lt: "i < nat \<lceil>q\<rceil>" by simp
  then have "rat_of_nat i < q"
    by (simp add: lt_ceiling_nat)
  moreover have "d = nat \<lceil>q\<rceil> - Suc i" using Suc by simp
  ultimately show ?case
    using Suc.hyps(1) [of "Suc i" "body i s"] lt
    by (subst for_loop.simps) (simp add: upt_conv_Cons)
qed

lemma for_loop_NaN: "for_loop i NaN body s = Some s"
  by (subst for_loop.simps) simp

lemma for_loop_NegInf: "for_loop i NegInf body s = Some s"
  by (subst for_loop.simps) simp

lemma for_loop_Some_bound: "for_loop i bound body s = Some r \<Longrightarrow> bound \<noteq> PosInf"
  by (rule for_loop.raw_induct [where P = "\<lambda>i bound body s r. bound \<noteq> PosInf"])
     (auto split: if_splits)

lemma for_loop_PosInf: "for_loop i PosInf body s = None"
  using for_loop_Some_bound [of i PosInf body s] by (cases "for_loop i PosInf body s") auto









lemma seatKey_not_Nil: "seatKey t i \<noteq> []"
  by (simp add: seatKey_def)

section \<open>The reconciliation pass\<close>

lemma fold_set_add_append:
  "fold set_add ys (a @ b) = a @ fold set_add (filter (\<lambda>y. y \<notin> set a) ys) b"
  by (induction ys arbitrary: b) (auto simp: set_add_def)

lemma fold_set_add_uniq: "fold set_add ys a = a @ uniq (filter (\<lambda>y. y \<notin> set a) ys)"
  using fold_set_add_append [of ys a "[]"] by (simp add: uniq_def)

lemma set_fold_set_add: "set (fold set_add ys a) = set a \<union> set ys"
  by (induction ys arbitrary: a) (auto simp: set_add_def)

lemma distinct_fold_set_add: "distinct a \<Longrightarrow> distinct (fold set_add ys a)"
  by (induction ys arbitrary: a) (auto simp: set_add_def)

lemma set_uniq [simp]: "set (uniq xs) = set xs"
  by (simp add: uniq_def set_fold_set_add)

lemma distinct_uniq [simp]: "distinct (uniq xs)"
  by (simp add: uniq_def distinct_fold_set_add)

lemma uniq_Cons: "uniq (x # xs) = x # uniq (filter (\<lambda>y. y \<noteq> x) xs)"
  using fold_set_add_uniq [of xs "[x]"] by (simp add: uniq_def set_add_def)

lemma uniq_distinct: "distinct xs \<Longrightarrow> uniq xs = xs"
proof (induction xs)
  case Nil
  then show ?case by (simp add: uniq_def)
next
  case (Cons x xs)
  then have "filter (\<lambda>y. y \<noteq> x) xs = xs" by (auto intro: filter_True)
  with Cons show ?case by (simp add: uniq_Cons)
qed

lemma fold_seen_pair:
  "fold (\<lambda>x (next, seen). if P x \<and> x \<notin> set seen then (next @ [x], set_add x seen) else (next, seen))
        xs (a, a)
   = (fold set_add (filter P xs) a, fold set_add (filter P xs) a)"
  by (induction xs arbitrary: a) (auto simp: set_add_def)

lemma fold_seen_pair_map:
  "fold (\<lambda>g (next, seen). if P (f g) \<and> f g \<notin> set seen then (next @ [f g], set_add (f g) seen) else (next, seen))
        gs (a, a)
   = (fold set_add (filter P (map f gs)) a, fold set_add (filter P (map f gs)) a)"
  by (induction gs arbitrary: a) (auto simp: set_add_def)

lemma set_assignedIds:
  "set (assignedIds gs m) = set (map guest_id gs) \<inter> set (List.map_filter snd m)"
  by (auto simp: assignedIds_def)

lemma reconcilePool_eq:
  "reconcilePool gs m p = pool_as_specified gs m p"
proof -
  let ?A = "set (assignedIds gs m)"
  let ?K = "set (map guest_id gs)"
  let ?V = "set (List.map_filter snd m)"
  let ?P1 = "\<lambda>g. g \<notin> ?A \<and> g \<in> set (uniq (map guest_id gs))"
  let ?n1 = "fold set_add (filter ?P1 p) []"
  have f1: "fold (\<lambda>guestId (next, seen).
                    if guestId \<notin> ?A \<and> guestId \<in> set (uniq (map guest_id gs)) \<and> guestId \<notin> set seen
                    then (next @ [guestId], set_add guestId seen) else (next, seen)) p ([], [])
            = (?n1, ?n1)"
    using fold_seen_pair [of ?P1 p "[]"] by (simp add: conj_assoc)
  have f2: "fold (\<lambda>g (next, seen).
                    if guest_id g \<notin> ?A \<and> guest_id g \<notin> set seen
                    then (next @ [guest_id g], set_add (guest_id g) seen) else (next, seen)) gs (a, a)
            = (fold set_add (filter (\<lambda>g. g \<notin> ?A) (map guest_id gs)) a,
               fold set_add (filter (\<lambda>g. g \<notin> ?A) (map guest_id gs)) a)" for a
    using fold_seen_pair_map [of "\<lambda>g. g \<notin> ?A" guest_id gs a] by simp
  have P1: "filter ?P1 p = filter (\<lambda>g. g \<in> ?K \<and> g \<notin> ?V) p"
    by (rule filter_cong) (auto simp: set_assignedIds)
  have n1: "?n1 = uniq (filter (\<lambda>g. g \<in> ?K \<and> g \<notin> ?V) p)"
    by (subst P1) (simp only: uniq_def)
  have P2: "filter (\<lambda>y. y \<notin> set ?n1) (filter (\<lambda>g. g \<notin> ?A) (map guest_id gs))
          = filter (\<lambda>g. g \<notin> ?V \<and> g \<notin> set ?n1) (map guest_id gs)"
    unfolding filter_filter by (rule filter_cong) (auto simp: set_assignedIds)
  have "reconcilePool gs m p = fold set_add (filter (\<lambda>g. g \<notin> ?A) (map guest_id gs)) ?n1"
    unfolding reconcilePool_def Let_def f1 by (simp add: f2)
  also have "\<dots> = ?n1 @ uniq (filter (\<lambda>g. g \<notin> ?V \<and> g \<notin> set ?n1) (map guest_id gs))"
    by (simp only: fold_set_add_uniq [of _ ?n1] P2)
  finally show ?thesis
    unfolding pool_as_specified_def Let_def n1 .
qed


lemma set_pool_as_specified:
  "set (pool_as_specified gs m p) = set (map guest_id gs) - set (List.map_filter snd m)"
  by (auto simp: pool_as_specified_def Let_def)

lemma distinct_pool_as_specified: "distinct (pool_as_specified gs m p)"
  by (auto simp: pool_as_specified_def Let_def)

lemma pool_as_specified_fixed:
  assumes "distinct p" "set p = set (map guest_id gs) - set (List.map_filter snd m)"
  shows "pool_as_specified gs m p = p"
proof -
  have "filter (\<lambda>g. g \<in> set (map guest_id gs) \<and> g \<notin> set (List.map_filter snd m)) p = p"
    using assms(2) by (auto intro: filter_True)
  then have kept: "uniq (filter (\<lambda>g. g \<in> set (map guest_id gs) \<and> g \<notin> set (List.map_filter snd m)) p) = p"
    using assms(1) by (simp only: uniq_distinct)
  have "filter (\<lambda>g. g \<notin> set (List.map_filter snd m) \<and> g \<notin> set p) (map guest_id gs) = []"
    using assms(2) by (auto simp: filter_empty_conv)
  then have rest: "uniq (filter (\<lambda>g. g \<notin> set (List.map_filter snd m) \<and> g \<notin> set p) (map guest_id gs)) = []"
    by (simp only: uniq_def fold.simps id_apply)
  show ?thesis
    unfolding pool_as_specified_def Let_def kept rest by simp
qed

lemma set_reconcilePool:
  "set (reconcilePool gs m p) = set (map guest_id gs) - set (List.map_filter snd m)"
  by (simp only: reconcilePool_eq set_pool_as_specified)

lemma distinct_reconcilePool: "distinct (reconcilePool gs m p)"
  by (simp only: reconcilePool_eq distinct_pool_as_specified)

lemma reconcilePool_fixed:
  "distinct p \<Longrightarrow> set p = set (map guest_id gs) - set (List.map_filter snd m) \<Longrightarrow>
   reconcilePool gs m p = p"
  by (simp only: reconcilePool_eq pool_as_specified_fixed)


text \<open>
  C10: for every guest list, assignment map and previous pool, the reconciliation pass
  returns the guest ids of the previous pool that are still known and unassigned, in their
  previous order, followed by the remaining known unassigned guest ids in guest-list order,
  without duplicates; a pool that already is this sequence is returned as it is, and the
  pass run twice gives what it gives once.
\<close>

theorem reconcilePool_as_specified:
  "reconcilePool gs m p = pool_as_specified gs m p
   \<and> distinct (reconcilePool gs m p)
   \<and> (p = pool_as_specified gs m p \<longrightarrow> reconcilePool gs m p = p)
   \<and> reconcilePool gs m (reconcilePool gs m p) = reconcilePool gs m p"
  using reconcilePool_eq [of gs m p] distinct_reconcilePool [of gs m p]
    reconcilePool_fixed [OF distinct_reconcilePool set_reconcilePool, of gs m p]
  by simp

theorem reconcilePool_as_specified_witness:
  "[''c'', ''a''] =
     pool_as_specified
       [\<lparr>guest_id = ''a'', guest_name = ''Ann'', details = None\<rparr>,
        \<lparr>guest_id = ''b'', guest_name = ''Bob'', details = None\<rparr>,
        \<lparr>guest_id = ''c'', guest_name = ''Cy'', details = None\<rparr>]
       [(''t:0'', Some ''b''), (''t:1'', None)] [''c'', ''a'']
   \<and> reconcilePool
       [\<lparr>guest_id = ''a'', guest_name = ''Ann'', details = None\<rparr>,
        \<lparr>guest_id = ''b'', guest_name = ''Bob'', details = None\<rparr>,
        \<lparr>guest_id = ''c'', guest_name = ''Cy'', details = None\<rparr>]
       [(''t:0'', Some ''b''), (''t:1'', None)] [''c'', ''a''] = [''c'', ''a'']"
proof -
  have h: "[''c'', ''a''] =
     pool_as_specified
       [\<lparr>guest_id = ''a'', guest_name = ''Ann'', details = None\<rparr>,
        \<lparr>guest_id = ''b'', guest_name = ''Bob'', details = None\<rparr>,
        \<lparr>guest_id = ''c'', guest_name = ''Cy'', details = None\<rparr>]
       [(''t:0'', Some ''b''), (''t:1'', None)] [''c'', ''a'']"
    by (simp add: pool_as_specified_def uniq_def set_add_def)
  show ?thesis
    using h reconcilePool_as_specified
      [of "[\<lparr>guest_id = ''a'', guest_name = ''Ann'', details = None\<rparr>,
        \<lparr>guest_id = ''b'', guest_name = ''Bob'', details = None\<rparr>,
        \<lparr>guest_id = ''c'', guest_name = ''Cy'', details = None\<rparr>]"
        "[(''t:0'', Some ''b''), (''t:1'', None)]" "[''c'', ''a'']"]
    by blast
qed

section \<open>Objects, the pool and the handlers\<close>

lemma map_of_obj_set: "map_of (obj_set m k v) k' = (if k' = k then Some v else map_of m k')"
  by (simp add: obj_set_def AList.update_conv')


lemma distinct_obj_set: "distinct (map fst m) \<Longrightarrow> distinct (map fst (obj_set m k v))"
  by (simp add: obj_set_def AList.distinct_update)


lemma occupant_obj_set:
  "occupant (obj_set m k v) k' =
     (if k' = k then (case v of Some g \<Rightarrow> if g = [] then None else Some g | None \<Rightarrow> None)
      else occupant m k')"
  by (simp add: occupant_def map_of_obj_set)


lemma occupant_Some: "occupant m k = Some g \<longleftrightarrow> map_of m k = Some (Some g) \<and> g \<noteq> []"
  by (auto simp: occupant_def split: option.splits)

lemma uniq_Nil_iff: "uniq xs = [] \<longleftrightarrow> xs = []"
  using set_uniq [of xs] by (metis set_empty)

lemma returnGuestsToPool_eq:
  "returnGuestsToPool gs ids p = filter (guestMap_has gs) (uniq ids) @ filter (\<lambda>g. g \<notin> set ids) p"
proof (cases "ids = []")
  case True
  then show ?thesis by (simp add: returnGuestsToPool_def Let_def uniq_def)
next
  case False
  then have "uniq ids \<noteq> []" by (simp add: uniq_Nil_iff)
  then show ?thesis by (simp add: returnGuestsToPool_def Let_def)
qed


lemma returnGuestsToPool_single:
  "returnGuestsToPool gs [d] p = (if guestMap_has gs d then [d] else []) @ filter (\<lambda>g. g \<noteq> d) p"
  by (simp add: returnGuestsToPool_eq uniq_def set_add_def)

lemma count_list_filter_neq: "g \<noteq> d \<Longrightarrow> count_list (filter (\<lambda>x. x \<noteq> d) p) g = count_list p g"
  by (induction p) auto

lemma set_map_filter: "set (List.map_filter f xs) = {y. \<exists>x \<in> set xs. f x = Some y}"
  by (induction xs) (auto simp: List.map_filter_simps split: option.splits)






text \<open>Unfolding the concrete states: the seat keys as strings, the records field by field.\<close>

lemmas ev = seatKey_def decimal.simps digit_def seated_state_def guest_of_def table_of_def
  guestMap_has_def occupant_def


subsection \<open>Moving a guest between seats\<close>

text \<open>
  A move between two different seats: for every known guest id \<open>g\<close> and every pair of
  distinct seat keys \<open>A\<close> and \<open>B\<close> where \<open>g\<close> occupies \<open>A\<close>, the call
  \<^verbatim>\<open>assignGuestToSeat(g, tableOf(B), indexOf(B), A)\<close> leaves seat \<open>A\<close> empty and seat
  \<open>B\<close> holding \<open>g\<close>, leaves the number of occurrences of \<open>g\<close> in the pool as it was,
  puts a different displaced occupant of \<open>B\<close> at the front of the pool (removing it from
  where it was; \<^verbatim>\<open>returnGuestsToPool\<close> adds it only if it is a known guest), leaves the
  pool alone when \<open>B\<close> was empty, and sets the selection to exactly \<open>B\<close>; guests and
  tables are untouched. For an unknown guest id the call changes nothing.
\<close>

lemma assignGuestToSeat_move:
  "(guestMap_has (guests s) g \<longrightarrow>
      map_of (assignments s) (seatKey tA iA) = Some (Some g) \<longrightarrow>
      seatKey tA iA \<noteq> seatKey tB iB \<longrightarrow>
      (let s' = assignGuestToSeat g tB iB (Some (seatKey tA iA)) s in
         map_of (assignments s') (seatKey tA iA) = Some None
       \<and> map_of (assignments s') (seatKey tB iB) = Some (Some g)
       \<and> count_list (pool s') g = count_list (pool s) g
       \<and> (\<forall>d. occupant (assignments s) (seatKey tB iB) = Some d \<and> d \<noteq> g
              \<longrightarrow> pool s' = (if guestMap_has (guests s) d then [d] else [])
                             @ filter (\<lambda>x. x \<noteq> d) (pool s))
       \<and> (occupant (assignments s) (seatKey tB iB) = None \<longrightarrow> pool s' = pool s)
       \<and> selectedSeatKeys s' = [seatKey tB iB]
       \<and> guests s' = guests s \<and> tables s' = tables s))
   \<and> (\<not> guestMap_has (guests s) g \<longrightarrow> assignGuestToSeat g t i fromSeatKey s = s)"
  by (auto simp: assignGuestToSeat_def Let_def map_of_obj_set seatKey_not_Nil
      returnGuestsToPool_single count_list_filter_neq split: option.splits)

lemma assignGuestToSeat_move_example:
  "map_of (assignments (assignGuestToSeat ''g1'' ''t'' 1 (Some (seatKey ''t'' 0)) seated_state))
        (seatKey ''t'' 0) = Some None
   \<and> map_of (assignments (assignGuestToSeat ''g1'' ''t'' 1 (Some (seatKey ''t'' 0)) seated_state))
        (seatKey ''t'' 1) = Some (Some ''g1'')
   \<and> pool (assignGuestToSeat ''g1'' ''t'' 1 (Some (seatKey ''t'' 0)) seated_state) = [''g2'', ''g3'']
   \<and> selectedSeatKeys (assignGuestToSeat ''g1'' ''t'' 1 (Some (seatKey ''t'' 0)) seated_state)
        = [seatKey ''t'' 1]
   \<and> assignGuestToSeat ''zz'' ''t'' 1 None seated_state = seated_state"
  by (simp add: ev assignGuestToSeat_def Let_def obj_set_def returnGuestsToPool_single)



subsection \<open>Loops over seat keys\<close>









lemma distinct_fold_set:
  "distinct (map fst m) \<Longrightarrow> distinct (map fst (fold (\<lambda>i m. obj_set m (key i) v) is m))"
  by (induction "is" arbitrary: m) (auto simp: distinct_obj_set)


subsection \<open>Removing a table\<close>




lemma rest_handleRemoveTable:
  "tables (handleRemoveTable t s) = filter (\<lambda>x. table_id x \<noteq> t) (tables s)"
  "selectedSeatKeys (handleRemoveTable t s) = filter (\<lambda>key. \<not> startsWithTable key t) (selectedSeatKeys s)"
  "guests (handleRemoveTable t s) = guests s"
  by (simp_all add: handleRemoveTable_def split: prod.splits)






subsection \<open>Resizing a table\<close>














text \<open>
  What the condition on the request excludes: \<^verbatim>\<open>Math.floor\<close>, \<^verbatim>\<open>Math.min\<close> and
  \<^verbatim>\<open>Math.max\<close> all pass \<^verbatim>\<open>NaN\<close> on, so a \<^verbatim>\<open>NaN\<close> request would be stored as the
  seat count. No call site passes it.
\<close>

lemma updateSeatCount_NaN:
  "sanitize NaN = NaN
   \<and> updateSeatCount ''t'' NaN full_table_state
       = Some (full_table_state\<lparr>tables := [(table_of ''t'' 4)\<lparr>seatCount := NaN\<rparr>]\<rparr>)"
  by (simp add: full_table_state_def table_of_def updateSeatCount_def sanitize_def js_strict_eq_def
      for_from_def Let_def returnGuestsToPool_def uniq_def)

section \<open>The core invariant\<close>






















section \<open>The normalizer\<close>

lemma for_loop_Some_range:
  assumes "for_loop i b body s = Some r"
  shows "\<exists>j\<ge>i. r = fold body [i..<j] s \<and> (\<forall>k\<ge>i. k < j \<longleftrightarrow> js_less (Fin (of_nat k)) b)"
proof (cases b)
  case (Fin q)
  with assms have r: "r = fold body [i..<nat \<lceil>q\<rceil>] s" by (simp add: for_loop_Fin)
  show ?thesis
  proof (intro exI [of _ "max i (nat \<lceil>q\<rceil>)"] conjI allI impI)
    show "i \<le> max i (nat \<lceil>q\<rceil>)" by simp
    show "r = fold body [i..<max i (nat \<lceil>q\<rceil>)] s"
      using r by (cases "i \<le> nat \<lceil>q\<rceil>") (simp_all add: max_def)
    show "k < max i (nat \<lceil>q\<rceil>) \<longleftrightarrow> js_less (Fin (of_nat k)) b" if "i \<le> k" for k
      using that Fin by (auto simp: lt_ceiling_nat)
  qed
next
  case PosInf
  with assms show ?thesis by (simp add: for_loop_PosInf)
next
  case NegInf
  with assms have "r = fold body [i..<i] s" by (simp add: for_loop_NegInf)
  with NegInf show ?thesis by (intro exI [of _ i]) simp
next
  case NaN
  with assms have "r = fold body [i..<i] s" by (simp add: for_loop_NaN)
  with NaN show ?thesis by (intro exI [of _ i]) simp
qed

lemma fold_bind_None: "fold (\<lambda>t acc. Option.bind acc (f t)) ts None = None"
  by (induction ts) auto

lemma seats_of_Cons:
  "seats_of (t # ts) = {seatKey (table_id t) i | i. js_less (Fin (of_nat i)) (seatCount t)} \<union> seats_of ts"
  by (auto simp: seats_of_def)

lemma keys_obj_set: "fst ` set (obj_set m k v) = insert k (fst ` set m)"
proof -
  have "set (map fst (obj_set m k v)) = insert k (set (map fst m))"
    unfolding obj_set_def using AList.dom_update [of k v m] by simp
  then show ?thesis by simp
qed

lemma entry_obj_set: "(k', w) \<in> set (obj_set m k v) \<Longrightarrow> (k' = k \<and> w = v) \<or> (k', w) \<in> set m"
  unfolding obj_set_def by (induction m) (auto split: if_splits)

lemma set_fst_fold_set:
  "set (map fst (fold (\<lambda>i m. obj_set m (key i) v) is m)) = set (map fst m) \<union> key ` set is"
  by (induction "is" arbitrary: m) (auto simp: keys_obj_set)

lemma values_fold_set:
  "(k, w) \<in> set (fold (\<lambda>i m. obj_set m (key i) v) is m) \<Longrightarrow> w = v \<or> (k, w) \<in> set m"
proof (induction "is" arbitrary: m)
  case Nil
  then show ?case by simp
next
  case (Cons i "is")
  from Cons.IH [of "obj_set m (key i) v"] Cons.prems
  have "w = v \<or> (k, w) \<in> set (obj_set m (key i) v)" by simp
  then show ?case
    by (auto dest: entry_obj_set)
qed

lemma buildEmptyAssignments_fold:
  "fold (\<lambda>t acc. Option.bind acc
                (for_loop 0 (seatCount t) (\<lambda>seatIndex m. obj_set m (seatKey (table_id t) seatIndex) None)))
          ts (Some m0) = Some m
   \<Longrightarrow> (distinct (map fst m0) \<longrightarrow> distinct (map fst m))
       \<and> set (map fst m) = set (map fst m0) \<union> seats_of ts
       \<and> (\<forall>(k, v) \<in> set m. v = None \<or> (k, v) \<in> set m0)"
proof (induction ts arbitrary: m0)
  case Nil
  then show ?case by (auto simp: seats_of_def)
next
  case (Cons t ts)
  let ?body = "\<lambda>seatIndex m. obj_set m (seatKey (table_id t) seatIndex) None"
  show ?case
  proof (cases "for_loop 0 (seatCount t) ?body m0")
    case None
    with Cons.prems show ?thesis by (simp add: fold_bind_None)
  next
    case (Some m1)
    from for_loop_Some_range [OF Some] obtain j where
      m1: "m1 = fold ?body [0..<j] m0" and j: "\<forall>k. k < j \<longleftrightarrow> js_less (Fin (of_nat k)) (seatCount t)"
      by auto
    have keys1: "set (map fst m1) = set (map fst m0) \<union> {seatKey (table_id t) i | i. js_less (Fin (of_nat i)) (seatCount t)}"
      unfolding m1 set_fst_fold_set using j by auto
    have d1: "distinct (map fst m0) \<longrightarrow> distinct (map fst m1)"
      unfolding m1 by (simp add: distinct_fold_set)
    have v1: "\<forall>(k, v) \<in> set m1. v = None \<or> (k, v) \<in> set m0"
      unfolding m1 using values_fold_set [of _ _ "seatKey (table_id t)" None "[0..<j]" m0] by auto
    from Cons.prems Some have "fold (\<lambda>t acc. Option.bind acc
                (for_loop 0 (seatCount t) (\<lambda>seatIndex m. obj_set m (seatKey (table_id t) seatIndex) None)))
          ts (Some m1) = Some m" by simp
    from Cons.IH [OF this] keys1 d1 v1 show ?thesis
      by (auto simp: seats_of_Cons)
  qed
qed

lemma buildEmptyAssignments_Some:
  assumes "buildEmptyAssignments ts = Some m"
  shows "distinct (map fst m)" "set (map fst m) = seats_of ts" "\<forall>(k, v) \<in> set m. v = None"
  using buildEmptyAssignments_fold [of ts "[]" m] assms
  by (auto simp: buildEmptyAssignments_def)

lemma pool_folds:
  "(let (pool1, seen1) =
          fold (\<lambda>guestId (pool, seen).
                  if guestId \<notin> set a \<and> guestId \<in> set g \<and> guestId \<notin> set seen
                  then (pool @ [guestId], set_add guestId seen) else (pool, seen))
               snap ([], []);
        (pool2, seen2) =
          fold (\<lambda>x (pool, seen).
                  if guest_id x \<notin> set a \<and> guest_id x \<notin> set seen
                  then (pool @ [guest_id x], set_add (guest_id x) seen) else (pool, seen))
               gs (pool1, seen1)
    in F pool2)
   = F (fold set_add (filter (\<lambda>x. x \<notin> set a) (map guest_id gs))
          (fold set_add (filter (\<lambda>x. x \<notin> set a \<and> x \<in> set g) snap) []))"
proof -
  have f1: "fold (\<lambda>guestId (pool, seen).
                  if guestId \<notin> set a \<and> guestId \<in> set g \<and> guestId \<notin> set seen
                  then (pool @ [guestId], set_add guestId seen) else (pool, seen))
               snap ([], [])
       = (fold set_add (filter (\<lambda>x. x \<notin> set a \<and> x \<in> set g) snap) [],
          fold set_add (filter (\<lambda>x. x \<notin> set a \<and> x \<in> set g) snap) [])"
    using fold_seen_pair [of "\<lambda>x. x \<notin> set a \<and> x \<in> set g" snap "[]"] by (simp add: conj_assoc)
  have f2: "fold (\<lambda>x (pool, seen).
                  if guest_id x \<notin> set a \<and> guest_id x \<notin> set seen
                  then (pool @ [guest_id x], set_add (guest_id x) seen) else (pool, seen))
               gs (b, b)
       = (fold set_add (filter (\<lambda>x. x \<notin> set a) (map guest_id gs)) b,
          fold set_add (filter (\<lambda>x. x \<notin> set a) (map guest_id gs)) b)" for b
    using fold_seen_pair_map [of "\<lambda>x. x \<notin> set a" guest_id gs b] by simp
  show ?thesis
    unfolding Let_def f1 by (simp add: f2)
qed

lemma reconcilePool_folds:
  "reconcilePool gs m p =
     fold set_add (filter (\<lambda>x. x \<notin> set (assignedIds gs m)) (map guest_id gs))
          (fold set_add (filter (\<lambda>x. x \<notin> set (assignedIds gs m) \<and> x \<in> set (uniq (map guest_id gs))) p) [])"
proof -
  have "reconcilePool gs m p =
     (let (next1, seen1) =
            fold (\<lambda>guestId (next, seen).
                    if guestId \<notin> set (assignedIds gs m) \<and> guestId \<in> set (uniq (map guest_id gs)) \<and> guestId \<notin> set seen
                    then (next @ [guestId], set_add guestId seen) else (next, seen))
                 p ([], []);
          (next2, seen2) =
            fold (\<lambda>g (next, seen).
                    if guest_id g \<notin> set (assignedIds gs m) \<and> guest_id g \<notin> set seen
                    then (next @ [guest_id g], set_add (guest_id g) seen) else (next, seen))
                 gs (next1, seen1)
      in next2)"
    by (simp add: reconcilePool_def Let_def split: prod.splits)
  then show ?thesis
    unfolding pool_folds [of "assignedIds gs m" "uniq (map guest_id gs)" p gs "\<lambda>x. x"] .
qed

text \<open>What an accepted payload went through.\<close>

lemma normalize_accepted:
  assumes "normalizeLayoutPayload toNumber payload = Some (Inr (Some st))"
  shows "\<exists>rawTables rawGuests rawAssignments entries m0 snap.
           get_prop payload ''tables'' = Some (JArr rawTables)
         \<and> get_prop payload ''guests'' = Some (JArr rawGuests)
         \<and> get_prop payload ''assignments'' = Some rawAssignments
         \<and> object_entries rawAssignments = Inr entries
         \<and> guests st = List.map_filter clean_guest rawGuests
         \<and> guests st \<noteq> []
         \<and> tables st = List.map_filter (clean_table toNumber) rawTables
         \<and> buildEmptyAssignments (tables st) = Some m0
         \<and> assignments st = fst (fold (assign_entry (uniq (map guest_id (guests st)))) entries (m0, True))
         \<and> pool st = reconcilePool (guests st) (assignments st) snap"
proof -
  from assms obtain rawTables rawGuests rawAssignments where
    p: "typeof_object payload" "payload \<noteq> JNull"
      "get_prop payload ''tables'' = Some (JArr rawTables)"
      "get_prop payload ''guests'' = Some (JArr rawGuests)"
      "get_prop payload ''assignments'' = Some rawAssignments"
    by (auto simp: normalizeLayoutPayload_def split: if_splits option.splits json.splits)
  let ?gs = "List.map_filter clean_guest rawGuests"
  let ?ts = "List.map_filter (clean_table toNumber) rawTables"
  from assms p have g: "?gs \<noteq> []" and ta: "typeof_object rawAssignments"
    by (auto simp: normalizeLayoutPayload_def Let_def split: if_splits)
  from assms p g ta obtain m0 where m0: "buildEmptyAssignments ?ts = Some m0"
    by (auto simp: normalizeLayoutPayload_def Let_def split: option.splits)
  from assms p g ta m0 obtain entries where e: "object_entries rawAssignments = Inr entries"
    by (auto simp: normalizeLayoutPayload_def Let_def split: sum.splits)
  let ?m = "fst (fold (assign_entry (uniq (map guest_id ?gs))) entries (m0, True))"
  let ?snap = "(case get_prop payload ''unassigned'' of
                 Some (JArr ids) \<Rightarrow>
                   List.map_filter (\<lambda>v. case v of JStr text \<Rightarrow> Some text | _ \<Rightarrow> None) ids
               | _ \<Rightarrow> [])"
  have a: "set (uniq (filter (\<lambda>guestId. guestId \<in> set (uniq (map guest_id ?gs))) (List.map_filter snd ?m)))
           = set (assignedIds ?gs ?m)"
    by (simp add: assignedIds_def)
  have "normalizeLayoutPayload toNumber payload
        = Some (Inr (Some \<lparr>guests = ?gs, tables = ?ts, assignments = ?m,
                             pool = reconcilePool ?gs ?m ?snap\<rparr>))"
    unfolding reconcilePool_folds
    using p g ta m0 e
    by (simp add: normalizeLayoutPayload_def Let_def pool_folds [unfolded Let_def] a
        del: set_uniq)
  with assms have "st = \<lparr>guests = ?gs, tables = ?ts, assignments = ?m,
                             pool = reconcilePool ?gs ?m ?snap\<rparr>" by simp
  with p g m0 e show ?thesis by auto
qed

lemma assign_entry_step:
  assumes "assign_entry G e (m, p) = (m', p')"
  shows "(distinct (map fst m) \<longrightarrow> distinct (map fst m'))
       \<and> fst ` set m \<subseteq> fst ` set m'
       \<and> fst ` set m' \<subseteq> fst ` set m \<union> set object_prototype_keys
       \<and> (\<forall>(k, w) \<in> set m'. (k, w) \<in> set m \<or> w = None \<or> (\<exists>g \<in> set G. w = Some g))"
proof -
  obtain k v where e: "e = (k, v)" by (cases e)
  have set_case: "(distinct (map fst m) \<longrightarrow> distinct (map fst (obj_set m k w)))
       \<and> fst ` set m \<subseteq> fst ` set (obj_set m k w)
       \<and> fst ` set (obj_set m k w) \<subseteq> fst ` set m \<union> set object_prototype_keys
       \<and> (\<forall>(k', w') \<in> set (obj_set m k w). (k', w') \<in> set m \<or> w' = None \<or> (\<exists>g \<in> set G. w' = Some g))"
    if "js_in k (m, p)" "w = None \<or> (\<exists>g \<in> set G. w = Some g)" for w
  proof -
    from that(1) have "k \<in> fst ` set m \<or> k \<in> set object_prototype_keys"
      by (auto simp: js_in_def)
    then have "fst ` set (obj_set m k w) \<subseteq> fst ` set m \<union> set object_prototype_keys"
      by (auto simp: keys_obj_set)
    moreover have "\<forall>(k', w') \<in> set (obj_set m k w). (k', w') \<in> set m \<or> w' = None \<or> (\<exists>g \<in> set G. w' = Some g)"
      using that(2) by (auto dest!: entry_obj_set)
    moreover have "fst ` set m \<subseteq> fst ` set (obj_set m k w)"
      by (auto simp: keys_obj_set)
    moreover have "distinct (map fst m) \<longrightarrow> distinct (map fst (obj_set m k w))"
      by (simp add: distinct_obj_set)
    ultimately show ?thesis by (intro conjI)
  qed
  show ?thesis
  proof (cases "js_in k (m, p)")
    case False
    with assms e show ?thesis by (auto simp: assign_entry_def)
  next
    case True
    define w where "w = (case v of JStr guestId \<Rightarrow> (if guestId \<in> set G then Some guestId else None) | _ \<Rightarrow> None)"
    have w: "w = None \<or> (\<exists>g \<in> set G. w = Some g)"
      by (auto simp: w_def split: json.splits)
    have "assign_entry G e (m, p) = js_assign k w (m, p)"
      using True e by (auto simp: assign_entry_def w_def split: json.splits)
    with assms have "js_assign k w (m, p) = (m', p')" by simp
    then have "m' = m \<or> m' = obj_set m k w"
      by (auto simp: js_assign_def split: if_splits option.splits)
    then show ?thesis
    proof
      assume "m' = m"
      then show ?thesis by auto
    next
      assume eq: "m' = obj_set m k w"
      show ?thesis unfolding eq by (rule set_case [OF True w])
    qed
  qed
qed

lemma grows_trans:
  assumes a: "(distinct (map fst m) \<longrightarrow> distinct (map fst m1))
       \<and> fst ` set m \<subseteq> fst ` set m1
       \<and> fst ` set m1 \<subseteq> fst ` set m \<union> S
       \<and> (\<forall>(k, w) \<in> set m1. (k, w) \<in> set m \<or> Q w)"
    and b: "(distinct (map fst m1) \<longrightarrow> distinct (map fst m'))
       \<and> fst ` set m1 \<subseteq> fst ` set m'
       \<and> fst ` set m' \<subseteq> fst ` set m1 \<union> S
       \<and> (\<forall>(k, w) \<in> set m'. (k, w) \<in> set m1 \<or> Q w)"
  shows "(distinct (map fst m) \<longrightarrow> distinct (map fst m'))
       \<and> fst ` set m \<subseteq> fst ` set m'
       \<and> fst ` set m' \<subseteq> fst ` set m \<union> S
       \<and> (\<forall>(k, w) \<in> set m'. (k, w) \<in> set m \<or> Q w)"
proof -
  note a1 = a [THEN conjunct1] and a2 = a [THEN conjunct2, THEN conjunct1]
    and a3 = a [THEN conjunct2, THEN conjunct2, THEN conjunct1]
    and a4 = a [THEN conjunct2, THEN conjunct2, THEN conjunct2]
  note b1 = b [THEN conjunct1] and b2 = b [THEN conjunct2, THEN conjunct1]
    and b3 = b [THEN conjunct2, THEN conjunct2, THEN conjunct1]
    and b4 = b [THEN conjunct2, THEN conjunct2, THEN conjunct2]
  have c1: "distinct (map fst m) \<longrightarrow> distinct (map fst m')" using a1 b1 by simp
  have c2: "fst ` set m \<subseteq> fst ` set m'" using a2 b2 by (rule subset_trans)
  have c3: "fst ` set m' \<subseteq> fst ` set m \<union> S" using a3 b3 by blast
  have c4: "\<forall>(k, w) \<in> set m'. (k, w) \<in> set m \<or> Q w"
  proof (clarify)
    fix k w assume "(k, w) \<in> set m'" "\<not> Q w"
    with b4 have "(k, w) \<in> set m1" by blast
    with a4 \<open>\<not> Q w\<close> show "(k, w) \<in> set m" by blast
  qed
  from c1 c2 c3 c4 show ?thesis by (intro conjI)
qed

lemma assign_entries_fold:
  assumes "fold (assign_entry G) es (m, p) = (m', p')"
  shows "(distinct (map fst m) \<longrightarrow> distinct (map fst m'))
       \<and> fst ` set m \<subseteq> fst ` set m'
       \<and> fst ` set m' \<subseteq> fst ` set m \<union> set object_prototype_keys
       \<and> (\<forall>(k, w) \<in> set m'. (k, w) \<in> set m \<or> w = None \<or> (\<exists>g \<in> set G. w = Some g))"
  using assms
proof (induction es arbitrary: m p)
  case Nil
  then show ?case by auto
next
  case (Cons e es)
  obtain m1 p1 where s: "assign_entry G e (m, p) = (m1, p1)" by (meson surj_pair)
  with Cons.prems have "fold (assign_entry G) es (m1, p1) = (m', p')" by simp
  from grows_trans [OF assign_entry_step [OF s] Cons.IH [OF this]] show ?case .
qed

lemma set_map_filter_snd: "set (List.map_filter snd m) = {g. \<exists>k. (k, Some g) \<in> set m}"
  by (force simp: set_map_filter)

text \<open>
  C5, as amended: for every accepted payload, in the state the normalizer returns every
  non-empty assignment entry names a cleaned guest id; every key of the assignment map that
  is not a property name of \<^verbatim>\<open>Object.prototype\<close> is the seat key of an actual seat of a
  cleaned table, every such seat has its entry, and no key occurs twice; the pool has no
  guest id twice; the pool and the non-empty assignment values together are the cleaned guest
  ids; and no guest id is both in the pool and in a seat. (A guest id that the payload puts
  on two seats stays on both. What the normalizer does with a key such as
  \<^verbatim>\<open>constructor\<close> is left out.)
\<close>

theorem normalize_accepted_state:
  assumes "normalizeLayoutPayload toNumber payload = Some (Inr (Some st))"
  shows "(\<forall>(k, v) \<in> set (assignments st). \<forall>g. v = Some g \<longrightarrow> g \<in> set (map guest_id (guests st)))
       \<and> (\<forall>k \<in> set (map fst (assignments st)).
             k \<notin> set object_prototype_keys \<longrightarrow> k \<in> seats_of (tables st))
       \<and> seats_of (tables st) \<subseteq> set (map fst (assignments st))
       \<and> distinct (map fst (assignments st))
       \<and> distinct (pool st)
       \<and> set (pool st) \<union> set (assignedValues (assignments st)) = set (map guest_id (guests st))
       \<and> set (pool st) \<inter> set (assignedValues (assignments st)) = {}"
proof -
  from normalize_accepted [OF assms] obtain entries m0 snap where
    m0: "buildEmptyAssignments (tables st) = Some m0"
    and m: "assignments st = fst (fold (assign_entry (uniq (map guest_id (guests st)))) entries (m0, True))"
    and p: "pool st = reconcilePool (guests st) (assignments st) snap"
    by blast
  note b = buildEmptyAssignments_Some [OF m0]
  obtain m' p' where f: "fold (assign_entry (uniq (map guest_id (guests st)))) entries (m0, True) = (m', p')"
    by (meson surj_pair)
  with m have m': "assignments st = m'" by simp
  note l = assign_entries_fold [OF f]
  note l1 = l [THEN conjunct1] and l2 = l [THEN conjunct2, THEN conjunct1]
    and l3 = l [THEN conjunct2, THEN conjunct2, THEN conjunct1]
    and l4 = l [THEN conjunct2, THEN conjunct2, THEN conjunct2]
  have v: "g \<in> set (map guest_id (guests st))" if "(k, Some g) \<in> set m'" for k g
  proof -
    from l4 that have "(k, Some g) \<in> set m0 \<or> (\<exists>g' \<in> set (uniq (map guest_id (guests st))). Some g = Some g')"
      by blast
    moreover have "(k, Some g) \<notin> set m0" using b(3) by blast
    ultimately show ?thesis by simp
  qed
  have k1: "k \<in> seats_of (tables st)" if "k \<in> set (map fst m')" "k \<notin> set object_prototype_keys" for k
    using l3 b(2) that by auto
  have k2: "seats_of (tables st) \<subseteq> set (map fst m')" using l2 b(2) by simp
  have d: "distinct (map fst m')" using l1 b(1) by simp
  have sub: "set (assignedValues m') \<subseteq> set (map guest_id (guests st))"
    using v by (auto simp: assignedValues_def set_map_filter_snd)
  have ps: "set (pool st) = set (map guest_id (guests st)) - set (assignedValues m')"
    unfolding p m' by (simp only: set_reconcilePool assignedValues_def)
  have pd: "distinct (pool st)" unfolding p by (rule distinct_reconcilePool)
  show ?thesis
    unfolding m'
  proof (intro conjI)
    show "\<forall>(k, v) \<in> set m'. \<forall>g. v = Some g \<longrightarrow> g \<in> set (map guest_id (guests st))"
      using v by blast
    show "\<forall>k \<in> set (map fst m'). k \<notin> set object_prototype_keys \<longrightarrow> k \<in> seats_of (tables st)"
      using k1 by blast
    show "seats_of (tables st) \<subseteq> set (map fst m')" by (rule k2)
    show "distinct (map fst m')" by (rule d)
    show "distinct (pool st)" by (rule pd)
    show "set (pool st) \<union> set (assignedValues m') = set (map guest_id (guests st))"
      using sub ps by blast
    show "set (pool st) \<inter> set (assignedValues m') = {}"
      using ps by blast
  qed
qed

theorem normalize_accepted_state_witness:
  "normalizeLayoutPayload not_numeric mixed_payload = Some (Inr (Some mixed_normalized))
   \<and> map_of (assignments mixed_normalized) ''t:1'' = Some None
   \<and> map_of (assignments mixed_normalized) ''x:0'' = None
   \<and> distinct (pool mixed_normalized)
   \<and> set (pool mixed_normalized) \<union> set (assignedValues (assignments mixed_normalized))
       = set (map guest_id (guests mixed_normalized))
   \<and> set (pool mixed_normalized) \<inter> set (assignedValues (assignments mixed_normalized)) = {}"
proof -
  have h: "normalizeLayoutPayload not_numeric mixed_payload = Some (Inr (Some mixed_normalized))"
    by code_simp
  note r = normalize_accepted_state [OF h]
  have m: "map_of (assignments mixed_normalized) ''t:1'' = Some None"
    "map_of (assignments mixed_normalized) ''x:0'' = None"
    by (simp_all add: mixed_normalized_def)
  from h m r [THEN conjunct2, THEN conjunct2, THEN conjunct2, THEN conjunct2]
  show ?thesis by (intro conjI) simp_all
qed


text \<open>
  C5 as stated has every cleaned guest id exactly once across the pool and the assignment
  values, and on no more than one seat. The normalizer copies each entry of the payload on
  its own: a guest id that the payload puts on two seats is on both afterwards.
\<close>

theorem normalize_double_seat_counterexample:
  "normalizeLayoutPayload not_numeric double_seat_payload
     = Some (Inr (Some \<lparr>guests = [guest_of ''g1'' ''Ann''], tables = [table_of ''t'' 2],
                          assignments = [(''t:0'', Some ''g1''), (''t:1'', Some ''g1'')],
                          pool = []\<rparr>))"
  by code_simp


text \<open>
  The part of C5 the amended claim leaves out: \<^verbatim>\<open>key in normalizedAssignments\<close> is true
  of \<^verbatim>\<open>constructor\<close>, which the object inherits, so the entry is written although no table
  has such a seat, and the guest counts as seated.
\<close>

lemma normalize_inherited_key:
  "normalizeLayoutPayload not_numeric constructor_payload
     = Some (Inr (Some \<lparr>guests = [guest_of ''g1'' ''Ann''], tables = [],
                          assignments = [(''constructor'', Some ''g1'')], pool = []\<rparr>))"
  by code_simp

subsection \<open>Payloads on which the normalizer neither rejects nor accepts\<close>

lemma buildEmptyAssignments_Nil: "buildEmptyAssignments [] = Some []"
  by (simp add: buildEmptyAssignments_def)


text \<open>
  C4 at the payload \<^verbatim>\<open>{guests: [{id: 'g1', name: 'Ann'}], tables: [], assignments: null}\<close>:
  \<^verbatim>\<open>typeof null\<close> is \<^verbatim>\<open>'object'\<close>, so the guard lets the payload through, and
  \<^verbatim>\<open>Object.entries(null)\<close> throws.
\<close>

theorem normalize_null_assignments_throws:
  "normalizeLayoutPayload toNumber null_assignments_payload = Some (Inl TypeError)"
  by (simp add: normalizeLayoutPayload_def null_assignments_payload_def guest_json_def guest_of_def
      clean_guest_def string_field_def List.map_filter_simps buildEmptyAssignments_Nil Let_def)


text \<open>
  C9 at a payload with a table whose seat count is \<^verbatim>\<open>Infinity\<close>: it is not \<^verbatim>\<open>NaN\<close>, so
  the table is kept with seat count \<^verbatim>\<open>Infinity\<close>, and the loop of
  \<^verbatim>\<open>buildEmptyAssignments\<close> over its seats does not end.
\<close>

theorem normalize_infinite_seats_hangs:
  "normalizeLayoutPayload toNumber infinite_seats_payload = None"
  by (simp add: normalizeLayoutPayload_def infinite_seats_payload_def guest_json_def guest_of_def
      clean_guest_def clean_table_def string_field_def number_field_def List.map_filter_simps
      buildEmptyAssignments_def for_loop_PosInf Let_def)

subsection \<open>Export, then import\<close>

lemma normalize_returns:
  assumes p: "typeof_object payload" "payload \<noteq> JNull"
      "get_prop payload ''tables'' = Some (JArr rawTables)"
      "get_prop payload ''guests'' = Some (JArr rawGuests)"
      "get_prop payload ''assignments'' = Some rawAssignments"
    and ta: "typeof_object rawAssignments"
    and g: "List.map_filter clean_guest rawGuests \<noteq> []"
    and m0: "buildEmptyAssignments (List.map_filter (clean_table toNumber) rawTables) = Some m0"
    and e: "object_entries rawAssignments = Inr entries"
  shows "normalizeLayoutPayload toNumber payload
        = Some (Inr (Some
            \<lparr>guests = List.map_filter clean_guest rawGuests,
             tables = List.map_filter (clean_table toNumber) rawTables,
             assignments = fst (fold (assign_entry (uniq (map guest_id (List.map_filter clean_guest rawGuests))))
                                     entries (m0, True)),
             pool = reconcilePool (List.map_filter clean_guest rawGuests)
                      (fst (fold (assign_entry (uniq (map guest_id (List.map_filter clean_guest rawGuests))))
                                     entries (m0, True)))
                      (case get_prop payload ''unassigned'' of
                         Some (JArr ids) \<Rightarrow>
                           List.map_filter (\<lambda>v. case v of JStr text \<Rightarrow> Some text | _ \<Rightarrow> None) ids
                       | _ \<Rightarrow> [])\<rparr>))"
proof -
  let ?gs = "List.map_filter clean_guest rawGuests"
  let ?m = "fst (fold (assign_entry (uniq (map guest_id ?gs))) entries (m0, True))"
  have a: "set (uniq (filter (\<lambda>guestId. guestId \<in> set (uniq (map guest_id ?gs))) (List.map_filter snd ?m)))
           = set (assignedIds ?gs ?m)"
    by (simp add: assignedIds_def)
  show ?thesis
    unfolding reconcilePool_folds
    using p g ta m0 e
    by (simp add: normalizeLayoutPayload_def Let_def pool_folds [unfolded Let_def] a
        del: set_uniq)
qed

lemma map_filter_map_id:
  "(\<And>x. x \<in> set xs \<Longrightarrow> f (h x) = Some x) \<Longrightarrow> List.map_filter f (map h xs) = xs"
  by (induction xs) (simp_all add: List.map_filter_simps)

lemma clean_guest_json:
  "guest_id g \<noteq> [] \<Longrightarrow> guest_name g \<noteq> [] \<Longrightarrow> clean_guest (guest_json g) = Some g"
  by (cases g) (auto simp: clean_guest_def guest_json_def string_field_def Let_def split: option.splits)

lemma clean_table_json:
  assumes "table_id t \<noteq> []" "seatCount t = Fin (of_nat n)" "1 \<le> n"
    "isFinite (pos_x (position t))" "isFinite (pos_y (position t))"
  shows "clean_table toNumber (table_json t) = Some t"
proof -
  have "js_max (Fin 1) (js_floor (Fin (of_nat n))) = Fin (of_nat n)"
    using assms(3) by simp
  then show ?thesis
    using assms by (cases t; cases "position t")
      (auto simp: clean_table_def table_json_def string_field_def number_field_def Let_def)
qed

lemma buildEmptyAssignments_total:
  assumes "\<forall>t \<in> set ts. \<exists>q. seatCount t = Fin q"
  shows "\<exists>m. buildEmptyAssignments ts = Some m"
proof -
  have "\<exists>m. fold (\<lambda>t acc. Option.bind acc
                (for_loop 0 (seatCount t) (\<lambda>seatIndex m. obj_set m (seatKey (table_id t) seatIndex) None)))
          ts (Some m0) = Some m" for m0
    using assms
  proof (induction ts arbitrary: m0)
    case Nil
    then show ?case by simp
  next
    case (Cons t ts)
    then obtain q where "seatCount t = Fin q" by auto
    with Cons show ?case by (simp add: for_loop_Fin)
  qed
  then show ?thesis by (simp add: buildEmptyAssignments_def)
qed

lemma assign_entries_own:
  assumes "\<forall>e \<in> set es. fst e \<in> fst ` set m"
  shows "fold (assign_entry G) es (m, p)
         = (fold (\<lambda>e m. obj_set m (fst e) (clean_value G (snd e))) es m, p)"
  using assms
proof (induction es arbitrary: m)
  case Nil
  then show ?case by simp
next
  case (Cons e es)
  obtain k v where e: "e = (k, v)" by (cases e)
  with Cons.prems have k: "k \<in> fst ` set m" by simp
  then have "assign_entry G e (m, p) = (obj_set m k (clean_value G v), p)"
    unfolding e by (auto simp: assign_entry_def js_in_def js_assign_def clean_value_def split: json.splits)
  moreover have "\<forall>e \<in> set es. fst e \<in> fst ` set (obj_set m k (clean_value G v))"
    using Cons.prems by (auto simp: keys_obj_set)
  ultimately show ?case using Cons.IH e by simp
qed

lemma map_of_fold_entries:
  assumes "distinct (map fst es)"
  shows "map_of (fold (\<lambda>e m. obj_set m (fst e) (f (snd e))) es m) k
         = (case map_of es k of Some v \<Rightarrow> Some (f v) | None \<Rightarrow> map_of m k)"
  using assms
proof (induction es arbitrary: m)
  case Nil
  then show ?case by simp
next
  case (Cons e es)
  obtain k' v where e: "e = (k', v)" by (cases e)
  from Cons.prems e have n: "map_of es k' = None" by (simp add: map_of_eq_None_iff)
  from Cons have "map_of (fold (\<lambda>e m. obj_set m (fst e) (f (snd e))) es (obj_set m k' (f v))) k
         = (case map_of es k of Some v \<Rightarrow> Some (f v) | None \<Rightarrow> map_of (obj_set m k' (f v)) k)"
    by simp
  with n show ?case unfolding e by (auto simp: map_of_obj_set split: option.splits)
qed

lemma map_of_map_values: "map_of (map (\<lambda>(k, v). (k, f v)) m) k = map_option f (map_of m k)"
  by (induction m) auto

lemma map_fst_map_values: "map fst (map (\<lambda>(k, v). (k, f v)) m) = map fst m"
  by (induction m) auto


text \<open>
  The tables the program builds have a non-empty id and finite coordinates: the default
  tables, the tables the normalizer returns, and, outside the model, the table of
  \<^verbatim>\<open>handleAddTable\<close>, whose id is \<^verbatim>\<open>table-\<close> followed by a time stamp and whose
  coordinates are computed from the number of tables. The four operations keep them so.
\<close>

lemma clean_table_importable:
  "clean_table toNumber item = Some t
   \<Longrightarrow> table_id t \<noteq> [] \<and> isFinite (pos_x (position t)) \<and> isFinite (pos_y (position t))"
  by (auto simp: clean_table_def Let_def split: if_splits)

lemma normalized_tables_importable:
  assumes "normalizeLayoutPayload toNumber payload = Some (Inr (Some st))"
  shows "\<forall>t \<in> set (tables st).
           table_id t \<noteq> [] \<and> isFinite (pos_x (position t)) \<and> isFinite (pos_y (position t))"
proof -
  from normalize_accepted [OF assms] obtain rawTables where
    "tables st = List.map_filter (clean_table toNumber) rawTables" by blast
  then show ?thesis
    using clean_table_importable by (auto simp: set_map_filter)
qed

lemma initial_tables_importable: "\<exists>s0. initial_state = Some s0 \<and> tables_importable s0"
proof -
  have "map_option tables_importable initial_state = Some True"
    by code_simp
  then show ?thesis by (cases initial_state) auto
qed

lemma step_tables_importable:
  assumes "tables_importable s" "step op s = Some s'"
  shows "tables_importable s'"
proof -
  have sub: "tables_importable (reconcile a)" if "set (map (\<lambda>t. (table_id t, position t)) (tables a))
      \<subseteq> set (map (\<lambda>t. (table_id t, position t)) (tables s))" for a
    unfolding tables_importable_def reconcile_def
  proof (simp, intro ballI)
    fix u assume "u \<in> set (tables a)"
    with that obtain v where v: "v \<in> set (tables s)" "table_id u = table_id v" "position u = position v"
      by auto
    with assms(1) show "table_id u \<noteq> [] \<and> isFinite (pos_x (position u)) \<and> isFinite (pos_y (position u))"
      by (simp add: tables_importable_def)
  qed
  show ?thesis
  proof (cases op)
    case (AssignGuest g t i f)
    have "tables (assignGuestToSeat g t i f s) = tables s"
      by (simp add: assignGuestToSeat_def Let_def)
    with sub [of "assignGuestToSeat g t i f s"] assms(2) AssignGuest show ?thesis by auto
  next
    case (ReleaseSeats ks)
    have "tables (releaseSeats ks s) = tables s"
      by (simp add: releaseSeats_def split: prod.splits)
    with sub [of "releaseSeats ks s"] assms(2) ReleaseSeats show ?thesis by auto
  next
    case (ResizeTable t n)
    with assms obtain a where a: "updateSeatCount t n s = Some a" and s': "s' = reconcile a"
      by auto
    from a have "tables a = tables s
        \<or> (\<exists>c. tables a = map (\<lambda>entry. if table_id entry = t then entry\<lparr>seatCount := c\<rparr> else entry) (tables s))"
      by (auto simp: updateSeatCount_def Let_def split: option.splits if_splits)
    then have "set (map (\<lambda>t. (table_id t, position t)) (tables a))
        \<subseteq> set (map (\<lambda>t. (table_id t, position t)) (tables s))"
      by auto
    from sub [OF this] s' show ?thesis by simp
  next
    case (RemoveTable t)
    have "set (map (\<lambda>t. (table_id t, position t)) (tables (handleRemoveTable t s)))
        \<subseteq> set (map (\<lambda>t. (table_id t, position t)) (tables s))"
      by (auto simp: rest_handleRemoveTable)
    from sub [OF this] assms(2) RemoveTable show ?thesis by auto
  qed
qed

text \<open>
  C2: for every state that satisfies the invariants of the data model and has at least one
  guest, its tables being such as the program builds them (a non-empty id, finite
  coordinates), the normalizer applied to the export snapshot of the state returns a state
  with the same guest list, the same table list, the same assignment map (the same entries;
  each key once) and the same pool in the same order.
\<close>

theorem export_import_roundtrip:
  assumes inv: "model_invariants s" and ne: "guests s \<noteq> []" and imp: "tables_importable s"
  shows "\<exists>st. normalizeLayoutPayload toNumber (snapshot s) = Some (Inr (Some st))
            \<and> guests st = guests s
            \<and> tables st = tables s
            \<and> map_of (assignments st) = map_of (assignments s)
            \<and> set (assignments st) = set (assignments s)
            \<and> distinct (map fst (assignments st))
            \<and> pool st = pool s"
proof -
  let ?gs = "guests s" and ?ts = "tables s" and ?m = "assignments s" and ?pl = "pool s"
  let ?G = "uniq (map guest_id ?gs)"
  let ?to_json = "\<lambda>v. case v of Some guestId \<Rightarrow> JStr guestId | None \<Rightarrow> JNull"
  let ?es = "map (\<lambda>(key, v). (key, ?to_json v)) ?m"
  from inv have gok: "\<forall>g \<in> set ?gs. guest_id g \<noteq> [] \<and> guest_name g \<noteq> []"
    and tok: "\<forall>t \<in> set ?ts. \<exists>n\<ge>1. seatCount t = Fin (of_nat n)"
    and dk: "distinct (map fst ?m)"
    and keys: "set (map fst ?m) = seats_of ?ts"
    and core: "core_invariant s"
    by (simp_all add: model_invariants_def keys_once_def)
  have p: "typeof_object (snapshot s)" "snapshot s \<noteq> JNull"
    "get_prop (snapshot s) ''tables'' = Some (JArr (map table_json ?ts))"
    "get_prop (snapshot s) ''guests'' = Some (JArr (map guest_json ?gs))"
    "get_prop (snapshot s) ''assignments'' = Some (assignments_json ?m)"
    "get_prop (snapshot s) ''unassigned'' = Some (JArr (map JStr ?pl))"
    by (simp_all add: snapshot_def)
  have ta: "typeof_object (assignments_json ?m)" by (simp add: assignments_json_def)
  have e: "object_entries (assignments_json ?m) = Inr ?es" by (simp add: assignments_json_def)
  have cg: "List.map_filter clean_guest (map guest_json ?gs) = ?gs"
    using gok by (intro map_filter_map_id clean_guest_json) auto
  have ct: "List.map_filter (clean_table toNumber) (map table_json ?ts) = ?ts"
  proof (rule map_filter_map_id)
    fix t assume t: "t \<in> set ?ts"
    with tok obtain n where "1 \<le> n" "seatCount t = Fin (of_nat n)" by blast
    moreover from imp t have "table_id t \<noteq> []" "isFinite (pos_x (position t))" "isFinite (pos_y (position t))"
      by (simp_all add: tables_importable_def)
    ultimately show "clean_table toNumber (table_json t) = Some t"
      by (intro clean_table_json) auto
  qed
  from tok have "\<forall>t \<in> set ?ts. \<exists>q. seatCount t = Fin q" by blast
  from buildEmptyAssignments_total [OF this] obtain m0 where m0: "buildEmptyAssignments ?ts = Some m0"
    by blast
  note b = buildEmptyAssignments_Some [OF m0]
  define m' where "m' = fst (fold (assign_entry ?G) ?es (m0, True))"
  have snap: "List.map_filter (\<lambda>v. case v of JStr text \<Rightarrow> Some text | _ \<Rightarrow> None) (map JStr ?pl) = ?pl"
    by (rule map_filter_map_id) simp
  have ret: "normalizeLayoutPayload toNumber (snapshot s)
        = Some (Inr (Some \<lparr>guests = ?gs, tables = ?ts, assignments = m', pool = reconcilePool ?gs m' ?pl\<rparr>))"
    using normalize_returns [OF p(1-5) ta, of toNumber m0 ?es] m0 e ne
    by (simp add: cg ct p(6) snap m'_def)
  have fst_es: "map fst ?es = map fst ?m" by (rule map_fst_map_values)
  have own: "\<forall>e \<in> set ?es. fst e \<in> fst ` set m0"
  proof
    fix e assume "e \<in> set ?es"
    then have "fst e \<in> set (map fst ?es)" by (simp only: set_map) (rule imageI)
    then have "fst e \<in> set (map fst ?m)" by (simp only: fst_es)
    with keys b(2) show "fst e \<in> fst ` set m0" by simp
  qed
  have m'_fold: "m' = fold (\<lambda>e m. obj_set m (fst e) (clean_value ?G (snd e))) ?es m0"
    unfolding m'_def assign_entries_own [OF own] by simp
  have des: "distinct (map fst ?es)" using dk by (simp only: fst_es)
  have mo_es: "map_of ?es k = map_option ?to_json (map_of ?m k)" for k
    by (rule map_of_map_values)
  have known: "g \<in> set ?G" if "map_of ?m k = Some (Some g)" for k g
  proof -
    from that have "(k, Some g) \<in> set ?m" by (rule map_of_SomeD)
    then have "g \<in> set (assignedValues ?m)" by (auto simp: assignedValues_def set_map_filter_snd)
    with core show ?thesis by (auto simp: core_invariant_def)
  qed
  have mo: "map_of m' k = map_of ?m k" for k
  proof (cases "map_of ?m k")
    case None
    then have "k \<notin> fst ` set ?m" by (simp add: map_of_eq_None_iff)
    with keys b(2) have "k \<notin> fst ` set m0" by simp
    then have "map_of m0 k = None" by (simp add: map_of_eq_None_iff)
    with None show ?thesis
      unfolding m'_fold map_of_fold_entries [OF des] by (simp add: mo_es)
  next
    case (Some v)
    have "clean_value ?G (?to_json v) = v"
    proof (cases v)
      case None
      then show ?thesis by (simp add: clean_value_def)
    next
      case (Some g)
      with \<open>map_of ?m k = Some v\<close> known [of k g] show ?thesis by (simp add: clean_value_def)
    qed
    with Some show ?thesis
      unfolding m'_fold map_of_fold_entries [OF des] by (simp add: mo_es)
  qed
  obtain mm pp where f: "fold (assign_entry ?G) ?es (m0, True) = (mm, pp)" by (meson surj_pair)
  then have "mm = m'" by (simp add: m'_def)
  with assign_entries_fold [OF f] b(1) have dm': "distinct (map fst m')" by blast
  from mo have mo_eq: "map_of m' = map_of ?m" by (rule ext)
  with dm' dk have set_eq: "set m' = set ?m" by (simp add: map_of_inject_set)
  have vals: "set (List.map_filter snd m') = set (assignedValues ?m)"
    by (simp only: set_map_filter_snd set_eq assignedValues_def)
  from core have "distinct ?pl" "set ?pl = set (map guest_id ?gs) - set (assignedValues ?m)"
    by (auto simp: core_invariant_def)
  then have pl: "reconcilePool ?gs m' ?pl = ?pl"
    by (intro reconcilePool_fixed) (simp_all only: vals)
  show ?thesis
    using ret mo_eq set_eq dm' pl by simp
qed

lemma seats_of_Nil: "seats_of [] = {}"
  by (simp add: seats_of_def)

lemma seats_of_table_of: "seats_of (table_of i n # ts) = seatKey i ` {..<n} \<union> seats_of ts"
  by (auto simp: seats_of_Cons table_of_def)

lemma model_invariants_seated_state: "model_invariants seated_state"
proof -
  have "seats_of (tables seated_state) = seatKey ''t'' ` {..<2}"
    by (simp add: seated_state_def seats_of_table_of seats_of_Nil)
  moreover have "{..<2::nat} = {0, 1}" by auto
  ultimately have k: "seats_of (tables seated_state) = {''t:0'', ''t:1''}"
    by (simp add: seatKey_def decimal.simps digit_def)
  have n: "\<forall>t \<in> set (tables seated_state). \<exists>n\<ge>1. seatCount t = Fin (of_nat n)"
    by (auto simp: seated_state_def table_of_def intro!: exI [of _ 2])
  show ?thesis
    unfolding model_invariants_def
    using k n
    by (simp add: seated_state_def guest_of_def table_of_def keys_once_def core_invariant_def
        assignedValues_def List.map_filter_simps insert_commute)
qed


theorem export_import_roundtrip_witness:
  "\<exists>st. normalizeLayoutPayload not_numeric (snapshot seated_state) = Some (Inr (Some st))
        \<and> guests st = guests seated_state
        \<and> tables st = tables seated_state
        \<and> map_of (assignments st) ''t:1'' = Some (Some ''g2'')
        \<and> pool st = [''g3'']"
proof -
  have h2: "guests seated_state \<noteq> []" by (simp add: seated_state_def)
  have h3: "tables_importable seated_state"
    by (simp add: tables_importable_def seated_state_def table_of_def)
  from export_import_roundtrip [OF model_invariants_seated_state h2 h3, of not_numeric]
  obtain st where st: "normalizeLayoutPayload not_numeric (snapshot seated_state) = Some (Inr (Some st))"
    "guests st = guests seated_state" "tables st = tables seated_state"
    "map_of (assignments st) = map_of (assignments seated_state)" "pool st = pool seated_state"
    by blast
  from st(4) have "map_of (assignments st) ''t:1'' = Some (Some ''g2'')"
    by (simp add: seated_state_def)
  moreover from st(5) have "pool st = [''g3'']" by (simp add: seated_state_def)
  ultimately show ?thesis using st(1-3) by blast
qed


section \<open>The guest-list import\<close>

lemma hyphenate_alnum: "is_alnum c \<Longrightarrow> hyphenate (c # cs) = c # hyphenate cs"
  by (cases cs) simp_all

lemma hyphenate_other:
  "\<not> is_alnum c \<Longrightarrow> hyphenate (c # cs)
     = (if cs = [] \<or> is_alnum (hd cs) then CHR ''-'' # hyphenate cs else hyphenate cs)"
  by (cases cs) simp_all

lemma hyphenate_run: "\<forall>c\<in>set w. is_alnum c \<Longrightarrow> hyphenate (w @ r) = w @ hyphenate r"
  by (induction w) (simp_all add: hyphenate_alnum)

lemma alnum_runs_Nil: "(alnum_runs s = []) = (\<forall>c\<in>set s. \<not> is_alnum c)"
  by (induction s rule: alnum_runs.induct) auto

lemma alnum_runs_words: "w \<in> set (alnum_runs s) \<Longrightarrow> w \<noteq> [] \<and> (\<forall>c\<in>set w. is_alnum c)"
proof (induction s rule: alnum_runs.induct)
  case 1
  then show ?case by simp
next
  case (2 c cs)
  show ?case
  proof (cases "is_alnum c")
    case True
    with "2.prems" consider "w = c # takeWhile is_alnum cs"
      | "w \<in> set (alnum_runs (dropWhile is_alnum cs))" by auto
    then show ?thesis
    proof cases
      case 1
      have "\<forall>x\<in>set (takeWhile is_alnum cs). is_alnum x" by (auto dest: set_takeWhileD)
      with 1 True show ?thesis by simp
    next
      case 2
      with "2.IH"(1) [OF True] show ?thesis .
    qed
  next
    case False
    with "2.prems" have "w \<in> set (alnum_runs cs)" by simp
    with "2.IH"(2) [OF False] show ?thesis .
  qed
qed

lemma join_hyphen_Cons: "ws \<noteq> [] \<Longrightarrow> join_hyphen (w # ws) = w @ ''-'' @ join_hyphen ws"
  by (cases ws) simp_all

lemma join_hyphen_ends:
  "ws \<noteq> [] \<Longrightarrow> \<forall>w\<in>set ws. w \<noteq> [] \<and> (\<forall>c\<in>set w. is_alnum c)
   \<Longrightarrow> join_hyphen ws \<noteq> [] \<and> is_alnum (hd (join_hyphen ws)) \<and> is_alnum (last (join_hyphen ws))"
proof (induction ws rule: join_hyphen.induct)
  case 1
  then show ?case by simp
next
  case (2 w)
  then show ?case by simp
next
  case (3 w v ws)
  then have "join_hyphen (v # ws) \<noteq> []" "is_alnum (last (join_hyphen (v # ws)))" by simp_all
  moreover from 3 have "w \<noteq> []" "is_alnum (hd w)" by simp_all
  ultimately show ?case by simp
qed

lemma not_alnum_hyphen: "\<not> is_alnum CHR ''-''"
  by (simp add: is_alnum_def)

lemma strip_hyphens_core:
  assumes "j \<noteq> []" "hd j \<noteq> CHR ''-''" "last j \<noteq> CHR ''-''"
    and "a = [] \<or> a = ''-''" "b = [] \<or> b = ''-''"
  shows "strip_hyphens (a @ j @ b) = j"
proof -
  from assms(1,2) obtain x xs where j: "j = x # xs" and x: "x \<noteq> CHR ''-''" by (cases j) auto
  from assms(1,3) obtain ys y where j': "j = ys @ [y]" and y: "y \<noteq> CHR ''-''"
    by (cases j rule: rev_cases) auto
  from assms(4) x have 1: "dropWhile (\<lambda>c. c = CHR ''-'') (a @ j @ b) = j @ b"
    by (auto simp add: j)
  from assms(5) y have 2: "dropWhile (\<lambda>c. c = CHR ''-'') (rev (j @ b)) = rev j"
    by (auto simp add: j')
  show ?thesis by (simp only: strip_hyphens_def 1 2 rev_rev_ident)
qed

lemma strip_hyphens_only: "s = [] \<or> s = ''-'' \<Longrightarrow> strip_hyphens s = []"
  by (auto simp add: strip_hyphens_def)

lemma hyphenate_runs:
  "hyphenate s =
     (if alnum_runs s = [] then (if s = [] then [] else ''-'')
      else (if is_alnum (hd s) then [] else ''-'') @ join_hyphen (alnum_runs s)
           @ (if is_alnum (last s) then [] else ''-''))"
proof (induction s rule: alnum_runs.induct)
  case 1
  show ?case by simp
next
  case (2 c cs)
  show ?case
  proof (cases "is_alnum c")
    case True
    let ?w = "c # takeWhile is_alnum cs" and ?r = "dropWhile is_alnum cs"
    have split: "c # cs = ?w @ ?r" by simp
    have w: "\<forall>x\<in>set ?w. is_alnum x" using True by (auto dest: set_takeWhileD)
    have h: "hyphenate (c # cs) = ?w @ hyphenate ?r"
      by (subst split) (rule hyphenate_run [OF w])
    have runs: "alnum_runs (c # cs) = ?w # alnum_runs ?r" using True by simp
    note IH = "2.IH"(1) [OF True]
    have hd_r: "\<not> is_alnum (hd ?r)" if "?r \<noteq> []" using that by (rule hd_dropWhile)
    have last_r: "last (c # cs) = last ?r" if "?r \<noteq> []"
      using that by (subst split) (simp only: last_append if_False)
    show ?thesis
    proof (cases "alnum_runs ?r = []")
      case Nil: True
      show ?thesis
      proof (cases "?r = []")
        case True
        then have "\<forall>x\<in>set cs. is_alnum x" by (simp add: dropWhile_eq_Nil_conv)
        with \<open>is_alnum c\<close> have "is_alnum (last (c # cs))"
          by (metis last_in_set list.distinct(1) set_ConsD)
        with True Nil h runs IH \<open>is_alnum c\<close> show ?thesis by simp
      next
        case False
        from Nil have "\<forall>x\<in>set ?r. \<not> is_alnum x" by (simp add: alnum_runs_Nil)
        with False have "\<not> is_alnum (last ?r)" using last_in_set by blast
        with last_r [OF False] have l: "\<not> is_alnum (last (c # cs))" by simp
        from False Nil IH have "hyphenate ?r = ''-''" by simp
        with h have "hyphenate (c # cs) = ?w @ ''-''" by simp
        moreover have "alnum_runs (c # cs) = [?w]" using runs Nil by simp
        ultimately show ?thesis using l \<open>is_alnum c\<close> by simp
      qed
    next
      case False
      have ne: "?r \<noteq> []"
      proof
        assume "?r = []"
        then have "alnum_runs ?r = []" by (simp only: alnum_runs.simps)
        with False show False by simp
      qed
      from False IH hd_r [OF ne]
      have "hyphenate ?r = ''-'' @ join_hyphen (alnum_runs ?r) @ (if is_alnum (last ?r) then [] else ''-'')"
        by simp
      with h last_r [OF ne]
      have "hyphenate (c # cs) = ?w @ ''-'' @ join_hyphen (alnum_runs ?r)
              @ (if is_alnum (last (c # cs)) then [] else ''-'')"
        by simp
      moreover have "join_hyphen (alnum_runs (c # cs)) = ?w @ ''-'' @ join_hyphen (alnum_runs ?r)"
        unfolding runs by (rule join_hyphen_Cons [OF False])
      ultimately show ?thesis using \<open>is_alnum c\<close> runs by simp
    qed
  next
    case False
    note IH = "2.IH"(2) [OF False]
    have runs: "alnum_runs (c # cs) = alnum_runs cs" using False by simp
    show ?thesis
    proof (cases "cs = []")
      case True
      with False show ?thesis by simp
    next
      case ne: False
      then have l: "last (c # cs) = last cs" by simp
      show ?thesis
      proof (cases "is_alnum (hd cs)")
        case True
        with ne have "alnum_runs cs \<noteq> []" using alnum_runs_Nil [of cs] hd_in_set by blast
        moreover have "hyphenate (c # cs) = CHR ''-'' # hyphenate cs"
          using False True by (simp add: hyphenate_other)
        ultimately show ?thesis using IH True False l runs by simp
      next
        case nd: False
        have "hyphenate (c # cs) = hyphenate cs"
          using False nd ne by (simp add: hyphenate_other)
        with IH nd False l runs ne show ?thesis by simp
      qed
    qed
  qed
qed

lemma fallbackId_slug: "fallbackId name = slug name"
proof -
  let ?s = "toLowerCase name"
  show ?thesis
  proof (cases "alnum_runs ?s = []")
    case True
    then have "hyphenate ?s = [] \<or> hyphenate ?s = ''-''" by (simp add: hyphenate_runs)
    then have "strip_hyphens (hyphenate ?s) = []" by (rule strip_hyphens_only)
    with True show ?thesis by (simp add: fallbackId_def slug_def)
  next
    case False
    let ?j = "join_hyphen (alnum_runs ?s)"
    have "\<forall>w\<in>set (alnum_runs ?s). w \<noteq> [] \<and> (\<forall>c\<in>set w. is_alnum c)"
      using alnum_runs_words by blast
    from join_hyphen_ends [OF False this]
    have j: "?j \<noteq> []" "is_alnum (hd ?j)" "is_alnum (last ?j)" by simp_all
    then have "hd ?j \<noteq> CHR ''-''" "last ?j \<noteq> CHR ''-''" using not_alnum_hyphen by auto
    with j(1) have "strip_hyphens ((if is_alnum (hd ?s) then [] else ''-'') @ ?j
                       @ (if is_alnum (last ?s) then [] else ''-'')) = ?j"
      by (intro strip_hyphens_core) simp_all
    with False show ?thesis by (simp add: fallbackId_def slug_def hyphenate_runs)
  qed
qed

lemma next_suffix_least:
  "n \<le> next_suffix seen b n
   \<and> b @ ''-'' @ decimal (next_suffix seen b n) \<notin> set seen
   \<and> (\<forall>j. n \<le> j \<and> j < next_suffix seen b n \<longrightarrow> b @ ''-'' @ decimal j \<in> set seen)"
proof (induction seen b n rule: next_suffix.induct)
  case (1 seen b n)
  show ?case
  proof (cases "b @ ''-'' @ decimal n \<in> set seen")
    case True
    then have eq: "next_suffix seen b n = next_suffix seen b (n + 1)"
      by (subst next_suffix.simps) simp
    from 1 [OF True] have a: "n + 1 \<le> next_suffix seen b (n + 1)"
      and b: "b @ ''-'' @ decimal (next_suffix seen b (n + 1)) \<notin> set seen"
      and c: "\<And>j. n + 1 \<le> j \<Longrightarrow> j < next_suffix seen b (n + 1) \<Longrightarrow> b @ ''-'' @ decimal j \<in> set seen"
      by simp_all
    have "b @ ''-'' @ decimal j \<in> set seen" if "n \<le> j" "j < next_suffix seen b (n + 1)" for j
    proof (cases "j = n")
      case True
      with \<open>b @ ''-'' @ decimal n \<in> set seen\<close> show ?thesis by simp
    next
      case False
      with that have "n + 1 \<le> j" by simp
      with that c show ?thesis by simp
    qed
    with a b show ?thesis unfolding eq by simp
  next
    case False
    then have eq: "next_suffix seen b n = n" by (subst next_suffix.simps) simp
    from False show ?thesis unfolding eq by auto
  qed
qed

lemma whitespace_lower: "js_whitespace c \<Longrightarrow> \<not> is_alnum (lower_char c)"
  by (auto simp add: js_whitespace_def lower_char_def is_alnum_def)

lemma takeWhile_append_other: "\<forall>x\<in>set b. \<not> P x \<Longrightarrow> takeWhile P (cs @ b) = takeWhile P cs"
proof (induction cs)
  case Nil
  then show ?case by (cases b) simp_all
next
  case (Cons c cs)
  then show ?case by simp
qed

lemma dropWhile_append_other: "\<forall>x\<in>set b. \<not> P x \<Longrightarrow> dropWhile P (cs @ b) = dropWhile P cs @ b"
proof (induction cs)
  case Nil
  then show ?case by (cases b) simp_all
next
  case (Cons c cs)
  then show ?case by simp
qed

lemma alnum_runs_prefix: "\<forall>x\<in>set a. \<not> is_alnum x \<Longrightarrow> alnum_runs (a @ s) = alnum_runs s"
  by (induction a) simp_all

lemma alnum_runs_suffix: "\<forall>x\<in>set b. \<not> is_alnum x \<Longrightarrow> alnum_runs (s @ b) = alnum_runs s"
proof (induction s rule: alnum_runs.induct)
  case 1
  then show ?case by (simp add: alnum_runs_Nil)
next
  case (2 c cs)
  show ?case
  proof (cases "is_alnum c")
    case True
    from "2.IH"(1) [OF True "2.prems"]
    have "alnum_runs (dropWhile is_alnum cs @ b) = alnum_runs (dropWhile is_alnum cs)" .
    with True "2.prems" show ?thesis
      by (simp add: takeWhile_append_other dropWhile_append_other)
  next
    case False
    with "2.IH"(2) [OF False "2.prems"] show ?thesis by simp
  qed
qed

lemma trim_split:
  "\<exists>p q. s = p @ js_trim s @ q \<and> (\<forall>x\<in>set p. js_whitespace x) \<and> (\<forall>x\<in>set q. js_whitespace x)"
proof -
  let ?m = "dropWhile js_whitespace s"
  let ?p = "takeWhile js_whitespace s"
  let ?q = "rev (takeWhile js_whitespace (rev ?m))"
  have "rev ?m = takeWhile js_whitespace (rev ?m) @ dropWhile js_whitespace (rev ?m)" by simp
  then have "rev (rev ?m) = rev (takeWhile js_whitespace (rev ?m) @ dropWhile js_whitespace (rev ?m))"
    by (rule arg_cong)
  then have m: "?m = js_trim s @ ?q" by (simp only: rev_rev_ident rev_append js_trim_def)
  have "s = ?p @ ?m" by simp
  with m have "s = ?p @ js_trim s @ ?q" by simp
  moreover have "\<forall>x\<in>set ?p. js_whitespace x" by (auto dest: set_takeWhileD)
  moreover have "\<forall>x\<in>set ?q. js_whitespace x" by (auto dest: set_takeWhileD)
  ultimately show ?thesis by blast
qed

lemma slug_trim: "slug (js_trim s) = slug s"
proof -
  from trim_split [of s] obtain p q where s: "s = p @ js_trim s @ q"
    and p: "\<forall>x\<in>set p. js_whitespace x" and q: "\<forall>x\<in>set q. js_whitespace x" by blast
  let ?t = "toLowerCase (js_trim s)"
  from s have "toLowerCase s = toLowerCase (p @ js_trim s @ q)" by simp
  then have eq: "toLowerCase s = map lower_char p @ (?t @ map lower_char q)"
    by (simp only: toLowerCase_def map_append)
  from p have p': "\<forall>x\<in>set (map lower_char p). \<not> is_alnum x" by (simp add: whitespace_lower)
  from q have q': "\<forall>x\<in>set (map lower_char q). \<not> is_alnum x" by (simp add: whitespace_lower)
  have "alnum_runs (toLowerCase s) = alnum_runs ?t"
    unfolding eq by (simp only: alnum_runs_prefix [OF p'] alnum_runs_suffix [OF q'])
  then show ?thesis by (simp add: slug_def)
qed

lemma candidateId_cases:
  "(base \<notin> set seen \<longrightarrow> candidateId seen base = base)
   \<and> (base \<in> set seen \<longrightarrow>
        (\<exists>k\<ge>2. candidateId seen base = base @ ''-'' @ decimal k
              \<and> base @ ''-'' @ decimal k \<notin> set seen
              \<and> (\<forall>j. 2 \<le> j \<and> j < k \<longrightarrow> base @ ''-'' @ decimal j \<in> set seen)))"
  using next_suffix_least [of 2 seen base] by (auto simp add: candidateId_def)

lemma candidateId_fresh: "candidateId seen base \<notin> set seen"
  using candidateId_cases [of base seen] by auto

lemma import_guest_cases:
  "import_guest item (seen, cl) =
     (let name = js_trim (string_field (get_prop item ''name''));
          provided = js_trim (string_field (get_prop item ''id''));
          base = (if provided \<noteq> [] then provided else fallbackId name)
      in if typeof_object item \<and> item \<noteq> JNull \<and> name \<noteq> [] \<and> base \<noteq> []
         then (seen @ [candidateId seen base],
               cl @ [\<lparr>guest_id = candidateId seen base, guest_name = name,
                         details = (case get_prop item ''details'' of
                                      Some (JStr text) \<Rightarrow> Some text
                                    | _ \<Rightarrow> None)\<rparr>])
         else (seen, cl))"
  by (simp add: import_guest_def Let_def set_add_def candidateId_fresh)

lemma import_guest_inv:
  assumes "fst acc = map guest_id (snd acc)" "distinct (fst acc)"
  shows "fst (import_guest item acc) = map guest_id (snd (import_guest item acc))
         \<and> distinct (fst (import_guest item acc))"
proof -
  obtain seen cl where acc: "acc = (seen, cl)" by (cases acc)
  with assms have seen: "seen = map guest_id cl" "distinct seen" by simp_all
  show ?thesis
    unfolding acc import_guest_cases
    using seen candidateId_fresh [of seen]
    by (simp add: Let_def del: set_map)
qed

lemma fold_import_inv:
  "fst acc = map guest_id (snd acc) \<Longrightarrow> distinct (fst acc)
   \<Longrightarrow> fst (fold import_guest items acc) = map guest_id (snd (fold import_guest items acc))
       \<and> distinct (fst (fold import_guest items acc))"
proof (induction items arbitrary: acc)
  case Nil
  then show ?case by simp
next
  case (Cons item items)
  from import_guest_inv [OF Cons.prems, of item]
  have 1: "fst (import_guest item acc) = map guest_id (snd (import_guest item acc))"
    and 2: "distinct (fst (import_guest item acc))" by (rule conjunct1, rule conjunct2)
  show ?case unfolding fold_simps by (rule Cons.IH [OF 1 2])
qed

lemma seenIds_cleaned:
  "fold import_guest items ([], []) = (map guest_id (cleaned items), cleaned items)"
  "distinct (map guest_id (cleaned items))"
proof -
  have "fst (fold import_guest items ([], [])) = map guest_id (snd (fold import_guest items ([], [])))
        \<and> distinct (fst (fold import_guest items ([], [])))"
    by (rule fold_import_inv) simp_all
  then have 1: "fst (fold import_guest items ([], [])) = map guest_id (cleaned items)"
    and 2: "distinct (fst (fold import_guest items ([], [])))"
    unfolding cleaned_def by (rule conjunct1, rule conjunct2)
  from 1 show "fold import_guest items ([], []) = (map guest_id (cleaned items), cleaned items)"
    by (simp add: prod_eq_iff cleaned_def)
  from 2 show "distinct (map guest_id (cleaned items))" unfolding 1 .
qed

lemma cleaned_snoc:
  "cleaned (items @ [item]) = snd (import_guest item (map guest_id (cleaned items), cleaned items))"
  by (simp add: cleaned_def [of "items @ [item]"] seenIds_cleaned(1))

text \<open>
  C8, as amended: in a guest-list import the ids produced are pairwise different, and each
  record is either dropped or appended to the guests produced before it. A record is dropped
  when it is not an object, when its name, trimmed of surrounding white space, is empty, or
  when its base id is empty. The base id is the provided id trimmed of surrounding white
  space, if that is non-empty, else the name in lower case with every run of non-alphanumeric
  characters collapsed to one hyphen and no hyphen at either end. A record that is kept gets
  its trimmed name and, as its id, the base id if no earlier record produced that id, else
  the base id followed by \<^verbatim>\<open>-k\<close> for the least \<open>k \<ge> 2\<close> such that no earlier record
  produced the resulting id.
\<close>

theorem import_guest_ids:
  "let produced = map guest_id (cleaned items);
       name = string_field (get_prop item ''name'');
       provided = js_trim (string_field (get_prop item ''id''));
       base = (if provided \<noteq> [] then provided else slug name)
   in distinct produced
      \<and> (if typeof_object item \<and> item \<noteq> JNull \<and> js_trim name \<noteq> [] \<and> base \<noteq> []
         then \<exists>new_id.
                cleaned (items @ [item])
                  = cleaned items @ [\<lparr>guest_id = new_id, guest_name = js_trim name,
                                       details = (case get_prop item ''details'' of
                                                    Some (JStr text) \<Rightarrow> Some text
                                                  | _ \<Rightarrow> None)\<rparr>]
              \<and> (base \<notin> set produced \<longrightarrow> new_id = base)
              \<and> (base \<in> set produced \<longrightarrow>
                   (\<exists>k\<ge>2. new_id = base @ ''-'' @ decimal k
                         \<and> new_id \<notin> set produced
                         \<and> (\<forall>j. 2 \<le> j \<and> j < k \<longrightarrow> base @ ''-'' @ decimal j \<in> set produced)))
         else cleaned (items @ [item]) = cleaned items)"
proof -
  define produced where "produced = map guest_id (cleaned items)"
  define name where "name = string_field (get_prop item ''name'')"
  define provided where "provided = js_trim (string_field (get_prop item ''id''))"
  define base where "base = (if provided \<noteq> [] then provided else slug name)"
  have base': "base = (if provided \<noteq> [] then provided else fallbackId (js_trim name))"
    by (simp add: base_def fallbackId_slug slug_trim)
  have d: "distinct produced" unfolding produced_def by (rule seenIds_cleaned(2))
  have step: "cleaned (items @ [item]) =
      (if typeof_object item \<and> item \<noteq> JNull \<and> js_trim name \<noteq> [] \<and> base \<noteq> []
       then cleaned items @ [\<lparr>guest_id = candidateId produced base, guest_name = js_trim name,
                               details = (case get_prop item ''details'' of
                                            Some (JStr text) \<Rightarrow> Some text
                                          | _ \<Rightarrow> None)\<rparr>]
       else cleaned items)"
    unfolding cleaned_snoc import_guest_cases base' provided_def name_def produced_def
    by (simp add: Let_def)
  from candidateId_cases [of base produced]
  have c1: "base \<notin> set produced \<longrightarrow> candidateId produced base = base"
    and c2: "base \<in> set produced \<longrightarrow>
          (\<exists>k\<ge>2. candidateId produced base = base @ ''-'' @ decimal k
                \<and> candidateId produced base \<notin> set produced
                \<and> (\<forall>j. 2 \<le> j \<and> j < k \<longrightarrow> base @ ''-'' @ decimal j \<in> set produced))"
    using candidateId_fresh [of produced base] by blast+
  have "distinct produced
      \<and> (if typeof_object item \<and> item \<noteq> JNull \<and> js_trim name \<noteq> [] \<and> base \<noteq> []
         then \<exists>new_id.
                cleaned (items @ [item])
                  = cleaned items @ [\<lparr>guest_id = new_id, guest_name = js_trim name,
                                       details = (case get_prop item ''details'' of
                                                    Some (JStr text) \<Rightarrow> Some text
                                                  | _ \<Rightarrow> None)\<rparr>]
              \<and> (base \<notin> set produced \<longrightarrow> new_id = base)
              \<and> (base \<in> set produced \<longrightarrow>
                   (\<exists>k\<ge>2. new_id = base @ ''-'' @ decimal k
                         \<and> new_id \<notin> set produced
                         \<and> (\<forall>j. 2 \<le> j \<and> j < k \<longrightarrow> base @ ''-'' @ decimal j \<in> set produced)))
         else cleaned (items @ [item]) = cleaned items)"
  proof (cases "typeof_object item \<and> item \<noteq> JNull \<and> js_trim name \<noteq> [] \<and> base \<noteq> []")
    case True
    with step have "cleaned (items @ [item])
        = cleaned items @ [\<lparr>guest_id = candidateId produced base, guest_name = js_trim name,
                               details = (case get_prop item ''details'' of
                                            Some (JStr text) \<Rightarrow> Some text
                                          | _ \<Rightarrow> None)\<rparr>]"
      by (simp only: if_True simp_thms)
    with c1 c2 have "\<exists>new_id.
                cleaned (items @ [item])
                  = cleaned items @ [\<lparr>guest_id = new_id, guest_name = js_trim name,
                                       details = (case get_prop item ''details'' of
                                                    Some (JStr text) \<Rightarrow> Some text
                                                  | _ \<Rightarrow> None)\<rparr>]
              \<and> (base \<notin> set produced \<longrightarrow> new_id = base)
              \<and> (base \<in> set produced \<longrightarrow>
                   (\<exists>k\<ge>2. new_id = base @ ''-'' @ decimal k
                         \<and> new_id \<notin> set produced
                         \<and> (\<forall>j. 2 \<le> j \<and> j < k \<longrightarrow> base @ ''-'' @ decimal j \<in> set produced)))"
      by (intro exI [of _ "candidateId produced base"] conjI)
    with d True show ?thesis by (simp only: if_True simp_thms)
  next
    case False
    with step have "cleaned (items @ [item]) = cleaned items" by (simp only: if_False simp_thms)
    with d False show ?thesis by (simp only: if_False simp_thms)
  qed
  then show ?thesis
    unfolding Let_def produced_def name_def provided_def base_def .
qed

lemma cleaned_Nil: "cleaned [] = []"
  by (simp add: cleaned_def)

text \<open>
  The specification's example, \<^verbatim>\<open>[{name: "Alice"}, {name: "Alice"}]\<close>: the ids are
  \<^verbatim>\<open>alice\<close> and \<^verbatim>\<open>alice-2\<close>.
\<close>

theorem import_guest_ids_witness:
  "import_guest_list (JArr [alice_record, alice_record])
     = Inr [\<lparr>guest_id = ''alice'', guest_name = ''Alice'', details = None\<rparr>,
            \<lparr>guest_id = ''alice-2'', guest_name = ''Alice'', details = None\<rparr>]"
proof -
  have name: "string_field (get_prop alice_record ''name'') = ''Alice''"
    and pid: "js_trim (string_field (get_prop alice_record ''id'')) = []"
    and obj: "typeof_object alice_record" "alice_record \<noteq> JNull"
    and det: "get_prop alice_record ''details'' = None"
    by (simp_all add: alice_record_def string_field_def js_trim_def)
  have trim: "js_trim ''Alice'' = ''Alice''" by code_simp
  have slug: "slug ''Alice'' = ''alice''" by code_simp
  have two: "decimal 2 = ''2''" by (simp add: decimal.simps digit_def)
  from import_guest_ids [of "[]" alice_record]
  have first: "cleaned [alice_record] = [\<lparr>guest_id = ''alice'', guest_name = ''Alice'', details = None\<rparr>]"
    by (simp add: Let_def name pid obj det trim slug cleaned_Nil)
  from import_guest_ids [of "[alice_record]" alice_record]
  obtain new_id where
    second: "cleaned [alice_record, alice_record]
               = [\<lparr>guest_id = ''alice'', guest_name = ''Alice'', details = None\<rparr>,
                  \<lparr>guest_id = new_id, guest_name = ''Alice'', details = None\<rparr>]"
    and k: "\<exists>k\<ge>2. new_id = ''alice'' @ ''-'' @ decimal k
               \<and> (\<forall>j. 2 \<le> j \<and> j < k \<longrightarrow> ''alice'' @ ''-'' @ decimal j \<in> {''alice''})"
    by (auto simp add: Let_def name pid obj det trim slug first)
  from k obtain k where k2: "2 \<le> k" and new_id: "new_id = ''alice'' @ ''-'' @ decimal k"
    and below: "\<forall>j. 2 \<le> j \<and> j < k \<longrightarrow> ''alice'' @ ''-'' @ decimal j \<in> {''alice''}" by blast
  have "k = 2"
  proof (rule ccontr)
    assume "k \<noteq> 2"
    with k2 have "2 < k" by simp
    with below have "''alice'' @ ''-'' @ decimal 2 \<in> {''alice''}" by blast
    then show False by simp
  qed
  with new_id two have "new_id = ''alice-2''" by simp
  with second show ?thesis by (simp add: import_guest_list_def)
qed

text \<open>
  C8 as stated has the provided id, if non-empty, as the record's id. The handler trims it:
  \<^verbatim>\<open>[{id: " bob ", name: "Bob"}]\<close> is imported with the id \<^verbatim>\<open>bob\<close>.
\<close>

theorem import_padded_id_counterexample:
  "string_field (get_prop padded_id_record ''id'') = '' bob ''
   \<and> import_guest_list (JArr [padded_id_record])
       = Inr [\<lparr>guest_id = ''bob'', guest_name = ''Bob'', details = None\<rparr>]"
  by code_simp

text \<open>
  An id counts as produced whichever record produced it: after the provided ids
  \<^verbatim>\<open>a-2\<close> and \<^verbatim>\<open>a\<close>, a second \<^verbatim>\<open>a\<close> becomes \<^verbatim>\<open>a-3\<close>.
\<close>

lemma import_reused_suffix:
  "map guest_id (cleaned reused_suffix_records) = [''a-2'', ''a'', ''a-3'']"
  by code_simp

end
